theory Spec2Isabelle
  imports Main "HOL-Library.Word" "HOL-Library.AList"
begin

unbundle bit_operations_syntax

section \<open>Objects of the runtime\<close>

text \<open>
  The call layer of \<^verbatim>\<open>py/objfun.c\<close> works on values of type \<^verbatim>\<open>mp_obj_t\<close>: a
  machine word that is either the null pointer \<^verbatim>\<open>MP_OBJ_NULL\<close>, a tagged small integer,
  a tagged interned string (a qstr), or a pointer to a heap object. The embedding keeps
  the distinction between those shapes and forgets addresses: a heap object is
  represented by its contents. Interned strings are numbers, as in the source.
\<close>

type_synonym qstr = nat
type_synonym byte = "8 word"
type_synonym mp_uint_t = "32 word"

datatype mp_obj_t =
    MP_OBJ_NULL
  | MP_OBJ_NEW_SMALL_INT int
  | MP_OBJ_NEW_QSTR qstr
  | mp_const_none
  | mp_const_false
  | mp_const_true
  | Tuple "mp_obj_t list"
  | Dict "(mp_obj_t \<times> mp_obj_t) list"
  | Cell mp_obj_t

text \<open>
  \<^verbatim>\<open>MP_OBJ_QSTR_VALUE\<close> reads the qstr out of a tagged word. The binder applies it to
  keyword names only, which callers pass as qstr objects; on any other object the macro
  shifts a pointer and the result means nothing, so the model leaves it unspecified.
\<close>

fun MP_OBJ_QSTR_VALUE :: "mp_obj_t \<Rightarrow> qstr" where
  "MP_OBJ_QSTR_VALUE (MP_OBJ_NEW_QSTR q) = q"

definition mp_const_empty_tuple :: mp_obj_t where
  "mp_const_empty_tuple = Tuple []"

text \<open>\<^verbatim>\<open>mp_obj_new_tuple\<close> (py/objtuple.c): the shared empty tuple for \<open>n = 0\<close>,
  otherwise a fresh tuple holding the first \<open>n\<close> items.\<close>

definition mp_obj_new_tuple :: "nat \<Rightarrow> mp_obj_t list \<Rightarrow> mp_obj_t" where
  "mp_obj_new_tuple n items =
     (if n = 0 then mp_const_empty_tuple else Tuple (take n items))"

definition mp_obj_new_cell :: "mp_obj_t \<Rightarrow> mp_obj_t" where
  "mp_obj_new_cell obj = Cell obj"

text \<open>
  Modelled from the spec: the dict operations \<^verbatim>\<open>mp_obj_new_dict\<close>,
  \<^verbatim>\<open>mp_obj_dict_store\<close> and \<^verbatim>\<open>mp_map_lookup\<close> live in files that are not part of
  the sources at hand. The spec calls the object a mapping into which (name, value)
  pairs are inserted and in which a name is looked up; the model is an association list
  in insertion order, where storing under a key that is present replaces its value.
  The size hint of \<^verbatim>\<open>mp_obj_new_dict\<close> only reserves room.
\<close>

definition mp_obj_new_dict :: "nat \<Rightarrow> mp_obj_t" where
  "mp_obj_new_dict n_hint = Dict []"

fun mp_obj_dict_store :: "mp_obj_t \<Rightarrow> mp_obj_t \<Rightarrow> mp_obj_t \<Rightarrow> mp_obj_t" where
  "mp_obj_dict_store (Dict kvs) k v = Dict (AList.update k v kvs)"

fun mp_map_lookup :: "mp_obj_t \<Rightarrow> mp_obj_t \<Rightarrow> mp_obj_t option" where
  "mp_map_lookup (Dict kvs) k = map_of kvs k"

section \<open>Bytecode functions\<close>

text \<open>
  The function object \<^verbatim>\<open>mp_obj_fun_bc_t\<close>, with the fields that
  \<^verbatim>\<open>mp_obj_new_fun_bc\<close> fills in. \<open>args\<close> is the table of parameter names
  (positional parameters first, then keyword-only ones); \<open>extra_args\<close> holds the
  \<open>n_def_args\<close> default values and, when \<open>has_def_kw_args\<close> is set, the dict of
  keyword defaults after them.
\<close>

record mp_obj_fun_bc_t =
  globals :: mp_obj_t
  n_pos_args :: nat
  n_kwonly_args :: nat
  n_def_args :: nat
  has_def_kw_args :: bool
  takes_var_args :: bool
  takes_kw_args :: bool
  bytecode :: "byte list"
  args :: "qstr list"
  extra_args :: "mp_obj_t list"

text \<open>Scope flags of \<^verbatim>\<open>py/runtime0.h\<close>.\<close>

definition MP_SCOPE_FLAG_VARARGS :: nat where
  "MP_SCOPE_FLAG_VARARGS = 4"

definition MP_SCOPE_FLAG_VARKEYWORDS :: nat where
  "MP_SCOPE_FLAG_VARKEYWORDS = 8"

text \<open>
  \<^verbatim>\<open>mp_obj_new_fun_bc\<close>: \<open>def_args_in\<close> is a tuple or \<^verbatim>\<open>MP_OBJ_NULL\<close>,
  \<open>def_kw_args\<close> a dict or \<^verbatim>\<open>MP_OBJ_NULL\<close>. The source asserts that a non-null
  \<open>def_args_in\<close> is a tuple; \<open>cur_globals\<close> is what \<^verbatim>\<open>mp_globals_get()\<close> returns.
\<close>

fun tuple_items :: "mp_obj_t \<Rightarrow> mp_obj_t list" where
  "tuple_items (Tuple xs) = xs"

definition mp_obj_new_fun_bc ::
  "mp_obj_t \<Rightarrow> nat \<Rightarrow> qstr list \<Rightarrow> nat \<Rightarrow> nat \<Rightarrow> mp_obj_t \<Rightarrow> mp_obj_t \<Rightarrow> byte list
     \<Rightarrow> mp_obj_fun_bc_t" where
  "mp_obj_new_fun_bc cur_globals scope_flags arg_names n_pos n_kwonly def_args_in def_kw_args code =
     (let n_def = (if def_args_in \<noteq> MP_OBJ_NULL then length (tuple_items def_args_in) else 0) in
      \<lparr> globals = cur_globals,
        n_pos_args = n_pos,
        n_kwonly_args = n_kwonly,
        n_def_args = n_def,
        has_def_kw_args = (def_kw_args \<noteq> MP_OBJ_NULL),
        takes_var_args = (scope_flags AND MP_SCOPE_FLAG_VARARGS \<noteq> 0),
        takes_kw_args = (scope_flags AND MP_SCOPE_FLAG_VARKEYWORDS \<noteq> 0),
        bytecode = code,
        args = arg_names,
        extra_args =
          (if def_args_in \<noteq> MP_OBJ_NULL then tuple_items def_args_in else []) @
          (if def_kw_args \<noteq> MP_OBJ_NULL then [def_kw_args] else []) \<rparr>)"

text \<open>
  The call frame \<^verbatim>\<open>mp_code_state\<close>. \<open>ip\<close> is the bytecode from the instruction
  pointer on; \<open>sp\<close> and \<open>exc_sp\<close> are the stack pointers as indices (\<open>-1\<close> is one
  below the first slot); \<open>state\<close> is the array of \<open>n_state\<close> slots, parameter \<open>j\<close>
  living in slot \<open>n_state - 1 - j\<close>.
\<close>

record mp_code_state =
  code_info :: "byte list"
  ip :: "byte list"
  sp :: int
  exc_sp :: int
  n_state :: nat
  state :: "mp_obj_t list"

text \<open>
  Everything the call layer raises. The binder's failures are \<^verbatim>\<open>TypeError\<close>s, told
  apart by their message:
  \<^item> \<open>ArityMismatch expected given\<close>: \<^verbatim>\<open>fun_pos_args_mismatch(f, expected, given)\<close>;
  \<^item> \<open>DuplicateArgument name\<close>: "function got multiple values for argument";
  \<^item> \<open>UnexpectedKeyword\<close>: "function does not take keyword arguments";
  \<^item> \<open>MissingRequiredPositional i\<close>: "function missing required positional argument #i";
  \<^item> \<open>MissingRequiredKeyword name\<close>: "function missing required keyword argument";
  \<^item> \<open>MissingKeywordOnly\<close>: "function missing keyword-only argument".
  \<open>Raised obj\<close> is an exception object re-raised after the virtual machine returned it,
  \<open>AssertFailed\<close> a failed \<^verbatim>\<open>assert(0)\<close>.
\<close>

datatype exc =
    ArityMismatch nat nat
  | DuplicateArgument qstr
  | UnexpectedKeyword
  | MissingRequiredPositional nat
  | MissingRequiredKeyword qstr
  | MissingKeywordOnly
  | Raised mp_obj_t
  | AssertFailed

definition fun_pos_args_mismatch :: "mp_obj_fun_bc_t \<Rightarrow> nat \<Rightarrow> nat \<Rightarrow> exc + 'a" where
  "fun_pos_args_mismatch f expected given = Inl (ArityMismatch expected given)"

subsection \<open>The argument binder \<^verbatim>\<open>mp_setup_code_state\<close>\<close>

text \<open>
  The function is split at the comments of the source. Indices into \<open>state\<close> are
  natural numbers; the source computes them by pointer arithmetic, which is defined only
  inside the array, so the theorems below assume a frame with room for every declared
  slot. \<open>var_pos_kw_args\<close> is the index of the slot for the \<^verbatim>\<open>*args\<close> tuple (and,
  after its decrement, for the \<^verbatim>\<open>**kwargs\<close> dict). The counts are natural numbers
  too: a function object has no more defaults than positional parameters
  (\<open>n_def_args \<le> n_pos_args\<close>), which the theorems assume wherever the source
  subtracts the two or walks the defaults. In the same way the tables \<open>args\<close> and
  \<open>extra_args\<close> of a function object are as long as the counts say, and \<open>argv\<close>
  holds the \<open>n_args\<close> positional arguments followed by the \<open>n_kw\<close> pairs.

  "check positional arguments": returns the state, the moved \<open>var_pos_kw_args\<close> and the
  clamped \<open>n_args\<close>.
\<close>

definition check_pos_args ::
  "mp_obj_fun_bc_t \<Rightarrow> nat \<Rightarrow> nat \<Rightarrow> nat \<Rightarrow> nat \<Rightarrow> mp_obj_t list \<Rightarrow> mp_obj_t list
     \<Rightarrow> exc + (mp_obj_t list \<times> nat \<times> nat)" where
  "check_pos_args self n var_pos_kw_args n_args n_kw argv st =
     (if n_args > n_pos_args self then
        if \<not> takes_var_args self then
          fun_pos_args_mismatch self (n_pos_args self) n_args
        else
          Inr (st[var_pos_kw_args :=
                    mp_obj_new_tuple (n_args - n_pos_args self) (drop (n_pos_args self) argv)],
               var_pos_kw_args - 1, n_pos_args self)
      else
        let (st1, vpk1) =
              (if takes_var_args self
               then (st[var_pos_kw_args := mp_const_empty_tuple], var_pos_kw_args - 1)
               else (st, var_pos_kw_args))
        in
          if n_kw = 0 \<and> \<not> has_def_kw_args self then
            if n_args \<ge> n_pos_args self - n_def_args self then
              Inr (fold (\<lambda>i s. s[n - 1 - i :=
                                   extra_args self ! (i - (n_pos_args self - n_def_args self))])
                        [n_args..<n_pos_args self] st1,
                   vpk1, n_args)
            else
              fun_pos_args_mismatch self (n_pos_args self - n_def_args self) n_args
          else Inr (st1, vpk1, n_args))"

text \<open>"copy positional args into state"\<close>

definition copy_pos_args :: "nat \<Rightarrow> nat \<Rightarrow> mp_obj_t list \<Rightarrow> mp_obj_t list \<Rightarrow> mp_obj_t list" where
  "copy_pos_args n n_args argv st = fold (\<lambda>i s. s[n - 1 - i := argv ! i]) [0..<n_args] st"

text \<open>
  One round of the loop over the keyword pairs: \<open>kwargs ! (2 * i)\<close> is the name,
  \<open>kwargs ! (2 * i + 1)\<close> the value. The inner loop finds the first \<open>j\<close> below
  \<open>n_pos_args + n_kwonly_args\<close> with \<open>args ! j\<close> equal to the name. The dict is the
  object in slot \<open>var_pos_kw_args\<close>, so storing into it changes that slot's contents.
\<close>

definition find_arg_name :: "mp_obj_fun_bc_t \<Rightarrow> qstr \<Rightarrow> nat option" where
  "find_arg_name self arg_name =
     find (\<lambda>j. arg_name = args self ! j) [0..<n_pos_args self + n_kwonly_args self]"

definition bind_kwarg ::
  "mp_obj_fun_bc_t \<Rightarrow> nat \<Rightarrow> nat \<Rightarrow> mp_obj_t list \<Rightarrow> nat \<Rightarrow> mp_obj_t list
     \<Rightarrow> exc + mp_obj_t list" where
  "bind_kwarg self n var_pos_kw_args kwargs i st =
     (let arg_name = MP_OBJ_QSTR_VALUE (kwargs ! (2 * i)) in
      case find_arg_name self arg_name of
        Some j \<Rightarrow>
          if st ! (n - 1 - j) \<noteq> MP_OBJ_NULL then Inl (DuplicateArgument arg_name)
          else Inr (st[n - 1 - j := kwargs ! (2 * i + 1)])
      | None \<Rightarrow>
          if \<not> takes_kw_args self then Inl UnexpectedKeyword
          else Inr (st[var_pos_kw_args :=
                         mp_obj_dict_store (st ! var_pos_kw_args)
                           (kwargs ! (2 * i)) (kwargs ! (2 * i + 1))]))"

fun bind_kwargs ::
  "mp_obj_fun_bc_t \<Rightarrow> nat \<Rightarrow> nat \<Rightarrow> mp_obj_t list \<Rightarrow> nat list \<Rightarrow> mp_obj_t list
     \<Rightarrow> exc + mp_obj_t list" where
  "bind_kwargs self n var_pos_kw_args kwargs [] st = Inr st"
| "bind_kwargs self n var_pos_kw_args kwargs (i # is) st =
     (case bind_kwarg self n var_pos_kw_args kwargs i st of
        Inl e \<Rightarrow> Inl e
      | Inr st' \<Rightarrow> bind_kwargs self n var_pos_kw_args kwargs is st')"

text \<open>
  "fill in defaults for positional args": \<open>d\<close> starts at slot \<open>n - n_pos_args\<close> (the
  last positional parameter) and moves up, \<open>s\<close> starts at the last default and moves
  down; round \<open>t\<close> looks at slot \<open>n - n_pos_args + t\<close> and default
  \<open>n_def_args - 1 - t\<close>.
\<close>

definition fill_def_pos_args :: "mp_obj_fun_bc_t \<Rightarrow> nat \<Rightarrow> mp_obj_t list \<Rightarrow> mp_obj_t list" where
  "fill_def_pos_args self n st =
     fold (\<lambda>t s. if s ! (n - n_pos_args self + t) = MP_OBJ_NULL
                 then s[n - n_pos_args self + t := extra_args self ! (n_def_args self - 1 - t)]
                 else s)
          [0..<n_def_args self] st"

text \<open>
  "Check that all mandatory keyword args are specified; fill in default kw args if we
  have them": one round per keyword-only parameter, stopping at the first one that has
  neither a value nor a default.
\<close>

fun fill_kwonly_args ::
  "mp_obj_fun_bc_t \<Rightarrow> nat \<Rightarrow> nat list \<Rightarrow> mp_obj_t list \<Rightarrow> exc + mp_obj_t list" where
  "fill_kwonly_args self n [] st = Inr st"
| "fill_kwonly_args self n (i # is) st =
     (if st ! (n - 1 - n_pos_args self - i) = MP_OBJ_NULL then
        (case (if has_def_kw_args self
               then mp_map_lookup (extra_args self ! n_def_args self)
                      (MP_OBJ_NEW_QSTR (args self ! (n_pos_args self + i)))
               else None) of
           Some v \<Rightarrow> fill_kwonly_args self n is (st[n - 1 - n_pos_args self - i := v])
         | None \<Rightarrow> Inl (MissingRequiredKeyword (args self ! (n_pos_args self + i))))
      else fill_kwonly_args self n is st)"

text \<open>"check keyword arguments": the whole second half of the binder.\<close>

definition check_kw_args ::
  "mp_obj_fun_bc_t \<Rightarrow> nat \<Rightarrow> nat \<Rightarrow> nat \<Rightarrow> mp_obj_t list \<Rightarrow> mp_obj_t list
     \<Rightarrow> exc + mp_obj_t list" where
  "check_kw_args self n var_pos_kw_args n_kw kwargs st =
     (if n_kw \<noteq> 0 \<or> has_def_kw_args self then
        let st1 = (if takes_kw_args self
                   then st[var_pos_kw_args := mp_obj_new_dict n_kw] else st)
        in case bind_kwargs self n var_pos_kw_args kwargs [0..<n_kw] st1 of
             Inl e \<Rightarrow> Inl e
           | Inr st2 \<Rightarrow>
               let st3 = fill_def_pos_args self n st2 in
               (case find (\<lambda>d. st3 ! d = MP_OBJ_NULL)
                          [n - n_pos_args self + n_def_args self..<n] of
                  Some d \<Rightarrow> Inl (MissingRequiredPositional (n - (d + 1)))
                | None \<Rightarrow> fill_kwonly_args self n [0..<n_kwonly_args self] st3)
      else
        if n_kwonly_args self \<noteq> 0 then Inl MissingKeywordOnly
        else Inr (if takes_kw_args self
                  then st[var_pos_kw_args := mp_obj_new_dict 0] else st))"

text \<open>
  "bytecode prelude: initialise closed over variables": the byte at \<open>ip\<close> counts the
  closed-over locals, the bytes after it number them; each of those slots is replaced by
  a new cell around its value.
\<close>

fun closure_prelude ::
  "nat \<Rightarrow> nat \<Rightarrow> byte list \<Rightarrow> mp_obj_t list \<Rightarrow> byte list \<times> mp_obj_t list" where
  "closure_prelude n 0 bs st = (bs, st)"
| "closure_prelude n (Suc n_local) bs st =
     (let local_num = unat (hd bs) in
      closure_prelude n n_local (tl bs)
        (st[n - 1 - local_num := mp_obj_new_cell (st ! (n - 1 - local_num))]))"

definition mp_setup_code_state ::
  "mp_code_state \<Rightarrow> mp_obj_fun_bc_t \<Rightarrow> nat \<Rightarrow> nat \<Rightarrow> mp_obj_t list \<Rightarrow> exc + mp_code_state" where
  "mp_setup_code_state code_state self n_args n_kw argv =
     (let n = n_state code_state;
          st0 = replicate n MP_OBJ_NULL;
          kwargs = drop n_args argv;
          var_pos_kw_args = n - 1 - n_pos_args self - n_kwonly_args self
      in case check_pos_args self n var_pos_kw_args n_args n_kw argv st0 of
           Inl e \<Rightarrow> Inl e
         | Inr (st1, vpk1, n_args1) \<Rightarrow>
             (case check_kw_args self n vpk1 n_kw kwargs (copy_pos_args n n_args1 argv st1) of
                Inl e \<Rightarrow> Inl e
              | Inr st3 \<Rightarrow>
                  let (ip', st4) =
                        closure_prelude n (unat (hd (ip code_state))) (tl (ip code_state)) st3
                  in Inr (code_state\<lparr> code_info := bytecode self, sp := -1, exc_sp := -1,
                                      state := st4, ip := ip' \<rparr>)))"

text \<open>
  The binder from the end of the keyword loop on (defaults, the check of the mandatory
  positional parameters, the keyword-only parameters, the prelude), as one function of
  the state the loop leaves. It only serves to state lemmas about the keyword path.
\<close>

definition after_kw_loop :: "mp_code_state \<Rightarrow> mp_obj_fun_bc_t \<Rightarrow> mp_obj_t list \<Rightarrow> exc + mp_code_state" where
  "after_kw_loop cs self st2 =
     (case find (\<lambda>d. fill_def_pos_args self (n_state cs) st2 ! d = MP_OBJ_NULL)
                [n_state cs - n_pos_args self + n_def_args self..<n_state cs] of
        Some d \<Rightarrow> Inl (MissingRequiredPositional (n_state cs - (d + 1)))
      | None \<Rightarrow>
          (case fill_kwonly_args self (n_state cs) [0..<n_kwonly_args self]
                  (fill_def_pos_args self (n_state cs) st2) of
             Inl e \<Rightarrow> Inl e
           | Inr st3 \<Rightarrow>
               Inr (cs\<lparr> code_info := bytecode self, sp := -1, exc_sp := -1,
                        state := snd (closure_prelude (n_state cs) (unat (hd (ip cs)))
                                        (tl (ip cs)) st3),
                        ip := fst (closure_prelude (n_state cs) (unat (hd (ip cs)))
                                     (tl (ip cs)) st3) \<rparr>)))"

text \<open>
  The keyword pairs of a call whose name is in no entry of the parameter table, in call
  order: what the claims call the unmatched pairs.
\<close>

definition unmatched_kwargs :: "mp_obj_fun_bc_t \<Rightarrow> mp_obj_t list \<Rightarrow> nat list \<Rightarrow> (mp_obj_t \<times> mp_obj_t) list" where
  "unmatched_kwargs self kwargs is =
     map (\<lambda>i. (kwargs ! (2 * i), kwargs ! (2 * i + 1)))
         (filter (\<lambda>i. find_arg_name self (MP_OBJ_QSTR_VALUE (kwargs ! (2 * i))) = None) is)"

text \<open>
  The claims about keyword arguments speak of the call alone, not of the state of the
  binder. \<open>kw_name n_args argv i\<close> is the name of keyword pair \<open>i\<close> of a call whose
  array \<open>argv\<close> holds \<open>n_args\<close> positional arguments followed by the pairs.
\<close>

definition kw_name :: "nat \<Rightarrow> mp_obj_t list \<Rightarrow> nat \<Rightarrow> qstr" where
  "kw_name n_args argv i = MP_OBJ_QSTR_VALUE (argv ! (n_args + 2 * i))"

text \<open>
  Keyword pair \<open>i\<close> of a call offends when the loop over the keyword pairs, having bound
  every pair before it, raises at pair \<open>i\<close>: its name is in no entry of the parameter
  table and the callable has no variadic-keyword flag, or the inner loop finds its name
  at a parameter that already has a value, from a positional argument or from an earlier
  pair with the same name. \<open>kw_error\<close> is what the loop raises at an offending pair.
\<close>

definition offending :: "mp_obj_fun_bc_t \<Rightarrow> nat \<Rightarrow> mp_obj_t list \<Rightarrow> nat \<Rightarrow> bool" where
  "offending self n_args argv i =
     (case find_arg_name self (kw_name n_args argv i) of
        Some j \<Rightarrow> (j < n_args \<and> j < n_pos_args self)
                  \<or> (\<exists>i' \<in> set [0..<i]. kw_name n_args argv i' = kw_name n_args argv i)
      | None \<Rightarrow> \<not> takes_kw_args self)"

definition kw_error :: "mp_obj_fun_bc_t \<Rightarrow> nat \<Rightarrow> mp_obj_t list \<Rightarrow> nat \<Rightarrow> exc" where
  "kw_error self n_args argv i =
     (case find_arg_name self (kw_name n_args argv i) of
        Some j \<Rightarrow> DuplicateArgument (kw_name n_args argv i)
      | None \<Rightarrow> UnexpectedKeyword)"

text \<open>
  Parameter \<open>j\<close> is supplied by a call when a positional argument lands in its slot or
  the inner loop resolves the name of some keyword pair to \<open>j\<close>. \<open>kw_default self k\<close>
  is the entry of the default-keyword mapping for the \<open>k\<close>-th keyword-only parameter,
  when the callable has the mapping and the mapping has the entry.
\<close>

definition supplied :: "mp_obj_fun_bc_t \<Rightarrow> nat \<Rightarrow> nat \<Rightarrow> mp_obj_t list \<Rightarrow> nat \<Rightarrow> bool" where
  "supplied self n_args n_kw argv j =
     (j < n_args \<and> j < n_pos_args self
      \<or> (\<exists>i \<in> set [0..<n_kw]. find_arg_name self (kw_name n_args argv i) = Some j))"

definition kw_default :: "mp_obj_fun_bc_t \<Rightarrow> nat \<Rightarrow> mp_obj_t option" where
  "kw_default self k =
     (if has_def_kw_args self
      then mp_map_lookup (extra_args self ! n_def_args self)
             (MP_OBJ_NEW_QSTR (args self ! (n_pos_args self + k)))
      else None)"

text \<open>
  The local numbers the prelude lists, and how often it lists local \<open>j\<close>: the slot of
  \<open>j\<close> ends up wrapped in that many cells (once, for the bytecode the compiler emits).
\<close>

definition closed_over :: "byte list \<Rightarrow> nat list" where
  "closed_over bs = map unat (take (unat (hd bs)) (tl bs))"

definition boxed :: "byte list \<Rightarrow> nat \<Rightarrow> mp_obj_t \<Rightarrow> mp_obj_t" where
  "boxed bs j v = (mp_obj_new_cell ^^ count_list (closed_over bs) j) v"

subsection \<open>Calling a bytecode function: \<^verbatim>\<open>fun_bc_call\<close>\<close>

text \<open>
  The sizes of the target's types are parameters. \<^verbatim>\<open>VM_MAX_STATE_ON_STACK\<close> is ten
  machine words.
\<close>

record target =
  sizeof_mp_obj_t :: nat
  sizeof_mp_exc_stack_t :: nat
  sizeof_mp_uint_t :: nat
  sizeof_mp_code_state :: nat

definition VM_MAX_STATE_ON_STACK :: "target \<Rightarrow> nat" where
  "VM_MAX_STATE_ON_STACK t = 10 * sizeof_mp_uint_t t"

datatype mp_vm_return_kind_t =
    MP_VM_RETURN_NORMAL
  | MP_VM_RETURN_YIELD
  | MP_VM_RETURN_EXCEPTION

text \<open>
  What the call does to memory, in order: \<^verbatim>\<open>m_new_obj_var\<close> takes the frame from the
  heap, \<^verbatim>\<open>alloca\<close> from the stack, \<^verbatim>\<open>m_del_var\<close> gives a heap frame back. Each event
  carries the byte count the source passes.
\<close>

datatype mem_event =
    M_NEW_OBJ_VAR nat
  | ALLOCA nat
  | M_DEL_VAR nat

text \<open>
  \<^verbatim>\<open>fun_bc_call\<close>. The virtual machine \<^verbatim>\<open>mp_execute_bytecode\<close> is a parameter: it
  runs under the function's globals and returns how it ended together with the frame it
  left. \<open>uninit\<close> is the content of the frame's memory before the call writes to it.
  The source reads the sizes out of the bytecode: a 32-bit length of the code-info block,
  then two 16-bit counts, all little-endian. \<open>state_size\<close> is a C \<^verbatim>\<open>uint\<close>.

  A failure of the binder is raised by \<^verbatim>\<open>nlr_raise\<close>, a non-local jump out of
  \<^verbatim>\<open>mp_setup_code_state\<close> and out of \<^verbatim>\<open>fun_bc_call\<close>: nothing after the call of
  the binder runs. The globals are set for the virtual machine and set back right after
  it, before anything can leave the function, so the model passes them to the virtual
  machine and does not return them. \<^verbatim>\<open>MP_VM_RETURN_YIELD\<close> runs into \<^verbatim>\<open>assert(0)\<close>.
\<close>

definition fun_bc_call ::
  "target \<Rightarrow> (mp_obj_t \<Rightarrow> mp_code_state \<Rightarrow> mp_vm_return_kind_t \<times> mp_code_state)
     \<Rightarrow> mp_code_state \<Rightarrow> mp_obj_fun_bc_t \<Rightarrow> nat \<Rightarrow> nat \<Rightarrow> mp_obj_t list
     \<Rightarrow> (exc + mp_obj_t) \<times> mem_event list" where
  "fun_bc_call t mp_execute_bytecode uninit self n_args n_kw argv =
     (let bc = bytecode self;
          code_info_size = unat (bc ! 0) OR push_bit 8 (unat (bc ! 1))
                             OR push_bit 16 (unat (bc ! 2)) OR push_bit 24 (unat (bc ! 3));
          bc1 = drop code_info_size bc;
          n = unat (bc1 ! 0) OR push_bit 8 (unat (bc1 ! 1));
          n_exc_stack = unat (bc1 ! 2) OR push_bit 8 (unat (bc1 ! 3));
          bc2 = drop 4 bc1;
          state_size = (n * sizeof_mp_obj_t t + n_exc_stack * sizeof_mp_exc_stack_t t) mod 2 ^ 32;
          allocated = (if state_size > VM_MAX_STATE_ON_STACK t
                       then [M_NEW_OBJ_VAR state_size]
                       else [ALLOCA (sizeof_mp_code_state t + state_size)]);
          freed = (if state_size > VM_MAX_STATE_ON_STACK t then [M_DEL_VAR state_size] else [])
      in case mp_setup_code_state (uninit\<lparr> n_state := n, ip := bc2 \<rparr>) self n_args n_kw argv of
           Inl e \<Rightarrow> (Inl e, allocated)
         | Inr code_state \<Rightarrow>
             (case mp_execute_bytecode (globals self) code_state of
                (MP_VM_RETURN_NORMAL, cs') \<Rightarrow>
                  (Inr (state cs' ! nat (sp cs')), allocated @ freed)
              | (MP_VM_RETURN_EXCEPTION, cs') \<Rightarrow>
                  (Inl (Raised (state cs' ! (n - 1))), allocated @ freed)
              | (MP_VM_RETURN_YIELD, cs') \<Rightarrow> (Inl AssertFailed, allocated)))"

section \<open>Viper functions\<close>

text \<open>
  \<^verbatim>\<open>mp_obj_fun_viper_t\<close>: the arity, the native function (here a function from the
  list of its machine-word arguments to its machine-word result) and the packed type
  signature. The fields are \<^verbatim>\<open>n_args\<close>, \<^verbatim>\<open>fun\<close> and \<^verbatim>\<open>type_sig\<close> in the source.
\<close>

record mp_obj_fun_viper_t =
  viper_n_args :: nat
  viper_fun :: "mp_uint_t list \<Rightarrow> mp_uint_t"
  type_sig :: mp_uint_t

text \<open>The 2-bit type codes of \<^verbatim>\<open>py/runtime0.h\<close>.\<close>

definition MP_NATIVE_TYPE_OBJ :: mp_uint_t where
  "MP_NATIVE_TYPE_OBJ = 0"

definition MP_NATIVE_TYPE_BOOL :: mp_uint_t where
  "MP_NATIVE_TYPE_BOOL = 1"

definition MP_NATIVE_TYPE_INT :: mp_uint_t where
  "MP_NATIVE_TYPE_INT = 2"

definition MP_NATIVE_TYPE_UINT :: mp_uint_t where
  "MP_NATIVE_TYPE_UINT = 3"

text \<open>
  Modelled from the spec: \<^verbatim>\<open>mp_arg_check_num\<close> is not in the sources at hand. For a
  viper function the spec asks for an exact match of the arity and no keywords.
\<close>

definition mp_arg_check_num :: "nat \<Rightarrow> nat \<Rightarrow> nat \<Rightarrow> nat \<Rightarrow> bool \<Rightarrow> exc + unit" where
  "mp_arg_check_num n_args n_kw n_args_min n_args_max takes_kw =
     (if n_kw \<noteq> 0 \<and> \<not> takes_kw then Inl UnexpectedKeyword
      else if n_args < n_args_min then Inl (ArityMismatch n_args_min n_args)
      else if n_args > n_args_max then Inl (ArityMismatch n_args_max n_args)
      else Inr ())"

text \<open>
  Modelled from the spec: the converters \<^verbatim>\<open>mp_convert_obj_to_native\<close> and
  \<^verbatim>\<open>mp_convert_native_to_obj\<close> are not in the sources at hand either. They take a value
  and a type word and convert "according to a 2-bit type code"; \<^verbatim>\<open>fun_viper_call\<close>
  hands them the signature shifted right, other slots still above the one meant, so the
  code they read is the low two bits of the type word. The conversions themselves stay
  parameters of the call.
\<close>

definition native_type_code :: "mp_uint_t \<Rightarrow> mp_uint_t" where
  "native_type_code type_word = type_word AND 3"

definition fun_viper_call ::
  "(mp_obj_t \<Rightarrow> mp_uint_t \<Rightarrow> mp_uint_t) \<Rightarrow> (mp_uint_t \<Rightarrow> mp_uint_t \<Rightarrow> mp_obj_t)
     \<Rightarrow> mp_obj_fun_viper_t \<Rightarrow> nat \<Rightarrow> nat \<Rightarrow> mp_obj_t list \<Rightarrow> exc + mp_obj_t" where
  "fun_viper_call mp_convert_obj_to_native mp_convert_native_to_obj self n_args n_kw argv =
     (case mp_arg_check_num n_args n_kw (viper_n_args self) (viper_n_args self) False of
        Inl e \<Rightarrow> Inl e
      | Inr _ \<Rightarrow>
          if n_args = 0 then
            Inr (mp_convert_native_to_obj (viper_fun self []) (type_sig self))
          else if n_args = 1 then
            Inr (mp_convert_native_to_obj
                   (viper_fun self
                      [mp_convert_obj_to_native (argv ! 0) (drop_bit 2 (type_sig self))])
                   (type_sig self))
          else if n_args = 2 then
            Inr (mp_convert_native_to_obj
                   (viper_fun self
                      [mp_convert_obj_to_native (argv ! 0) (drop_bit 2 (type_sig self)),
                       mp_convert_obj_to_native (argv ! 1) (drop_bit 4 (type_sig self))])
                   (type_sig self))
          else if n_args = 3 then
            Inr (mp_convert_native_to_obj
                   (viper_fun self
                      [mp_convert_obj_to_native (argv ! 0) (drop_bit 2 (type_sig self)),
                       mp_convert_obj_to_native (argv ! 1) (drop_bit 4 (type_sig self)),
                       mp_convert_obj_to_native (argv ! 2) (drop_bit 6 (type_sig self))])
                   (type_sig self))
          else Inl AssertFailed)"

section \<open>The phases of the binder\<close>

lemma fold_upd_length: "length (fold (\<lambda>i s. s[f i := g i s]) xs st) = length st"
  by (induction xs arbitrary: st) auto

lemma fold_cond_upd_length:
  "length (fold (\<lambda>i s. if c i s then s[f i := g i s] else s) xs st) = length st"
  by (induction xs arbitrary: st) auto

lemma slot_eq_iff: "i < n \<Longrightarrow> j < n \<Longrightarrow> n - Suc i = n - Suc j \<longleftrightarrow> i = j"
  by arith

lemma fold_upd_nth:
  assumes "length st = n" and "b \<le> n" and "j < n"
  shows "fold (\<lambda>i s. s[n - Suc i := g i]) [a..<b] st ! (n - Suc j)
           = (if a \<le> j \<and> j < b then g j else st ! (n - Suc j))"
  using assms(2)
proof (induction b)
  case 0
  then show ?case by simp
next
  case (Suc b)
  let ?s = "fold (\<lambda>i s. s[n - Suc i := g i]) [a..<b] st"
  have len: "length ?s = n"
    using assms(1) by (simp add: fold_upd_length)
  have IH: "?s ! (n - Suc j) = (if a \<le> j \<and> j < b then g j else st ! (n - Suc j))"
    using Suc by simp
  have b: "b < n" using Suc.prems by simp
  show ?case
  proof (cases "a \<le> b")
    case True
    then have "fold (\<lambda>i s. s[n - Suc i := g i]) [a..<Suc b] st = ?s[n - Suc b := g b]"
      by simp
    then show ?thesis
      using IH len b assms(3) True
      by (auto simp: nth_list_update slot_eq_iff)
  next
    case False
    then show ?thesis by auto
  qed
qed

lemma copy_pos_args_length: "length (copy_pos_args n k argv st) = length st"
  by (simp add: copy_pos_args_def fold_upd_length)

lemma copy_pos_args_nth:
  "length st = n \<Longrightarrow> k \<le> n \<Longrightarrow> j < n \<Longrightarrow>
   copy_pos_args n k argv st ! (n - Suc j) = (if j < k then argv ! j else st ! (n - Suc j))"
  by (simp add: copy_pos_args_def fold_upd_nth)

lemma fill_def_pos_args_length: "length (fill_def_pos_args self n st) = length st"
  unfolding fill_def_pos_args_def by (rule fold_cond_upd_length)

text \<open>Right-aligned defaults: parameter j takes default j - (P - D).\<close>

lemma fold_fill_nth:
  assumes "length st = n" and "P \<le> n" and "m \<le> P"
  shows "j < n \<Longrightarrow> fold (\<lambda>t s. if s ! (n - P + t) = MP_OBJ_NULL then s[n - P + t := g t] else s)
              [0..<m] st ! (n - Suc j)
           = (if P - m \<le> j \<and> j < P \<and> st ! (n - Suc j) = MP_OBJ_NULL
              then g (P - Suc j) else st ! (n - Suc j))"
  using assms(3)
proof (induction m arbitrary: j)
  case 0
  then show ?case by auto
next
  case (Suc m)
  let ?s = "fold (\<lambda>t s. if s ! (n - P + t) = MP_OBJ_NULL then s[n - P + t := g t] else s)
              [0..<m] st"
  have len: "length ?s = n"
    using assms(1) by (simp add: fold_cond_upd_length)
  have IH: "\<And>j. j < n \<Longrightarrow> ?s ! (n - Suc j) =
              (if P - m \<le> j \<and> j < P \<and> st ! (n - Suc j) = MP_OBJ_NULL
               then g (P - Suc j) else st ! (n - Suc j))"
    using Suc by simp
  have m: "m < P" using Suc.prems by simp
  have idx: "n - P + m = n - Suc (P - Suc m)" using assms(2) m by arith
  have bound: "P - Suc m < n" using assms(2) m by arith
  have cur: "?s ! (n - P + m) = st ! (n - P + m)"
    using IH[OF bound] m unfolding idx by auto
  have step: "fold (\<lambda>t s. if s ! (n - P + t) = MP_OBJ_NULL then s[n - P + t := g t] else s)
              [0..<Suc m] st
        = (if st ! (n - P + m) = MP_OBJ_NULL then ?s[n - P + m := g m] else ?s)"
    using cur by simp
  have gm: "P - Suc (P - Suc m) = m" using m by arith
  show ?case
  proof (cases "j = P - Suc m")
    case True
    have "j < P" "P - Suc m \<le> j" "\<not> P - m \<le> j" using True m by arith+
    then show ?thesis
      unfolding step using True len bound gm IH[OF bound] unfolding idx
      by (simp add: nth_list_update)
  next
    case False
    then have ne: "n - Suc (P - Suc m) \<noteq> n - Suc j"
      using slot_eq_iff[OF bound \<open>j < n\<close>] by simp
    have eq: "(P - Suc m \<le> j \<and> j < P) \<longleftrightarrow> (P - m \<le> j \<and> j < P)" using False m by arith
    have "fold (\<lambda>t s. if s ! (n - P + t) = MP_OBJ_NULL then s[n - P + t := g t] else s)
              [0..<Suc m] st ! (n - Suc j) = ?s ! (n - Suc j)"
      unfolding step idx using ne by (simp add: nth_list_update)
    also have "\<dots> = (if P - m \<le> j \<and> j < P \<and> st ! (n - Suc j) = MP_OBJ_NULL
               then g (P - Suc j) else st ! (n - Suc j))"
      by (rule IH[OF \<open>j < n\<close>])
    also have "\<dots> = (if P - Suc m \<le> j \<and> j < P \<and> st ! (n - Suc j) = MP_OBJ_NULL
               then g (P - Suc j) else st ! (n - Suc j))"
      using eq by (cases "P - m \<le> j \<and> j < P") auto
    finally show ?thesis .
  qed
qed

lemma fill_def_pos_args_nth:
  assumes "length st = n" and "n_pos_args self \<le> n" and "n_def_args self \<le> n_pos_args self"
    and "j < n"
  shows "fill_def_pos_args self n st ! (n - Suc j)
           = (if n_pos_args self - n_def_args self \<le> j \<and> j < n_pos_args self
                 \<and> st ! (n - Suc j) = MP_OBJ_NULL
              then extra_args self ! (j - (n_pos_args self - n_def_args self))
              else st ! (n - Suc j))"
proof -
  have "n_pos_args self - n_def_args self \<le> j \<Longrightarrow> j < n_pos_args self \<Longrightarrow>
        n_def_args self - 1 - (n_pos_args self - Suc j) = j - (n_pos_args self - n_def_args self)"
    using assms(3) by arith
  then show ?thesis
    unfolding fill_def_pos_args_def
    using fold_fill_nth[OF assms(1,2,3) assms(4),
        where g = "\<lambda>t. extra_args self ! (n_def_args self - 1 - t)"]
    by auto
qed

subsection \<open>The closure prelude\<close>

lemma closure_prelude_fold:
  "k \<le> length bs \<Longrightarrow>
   closure_prelude n k bs st =
     (drop k bs, fold (\<lambda>l s. s[n - Suc l := mp_obj_new_cell (s ! (n - Suc l))])
                      (map unat (take k bs)) st)"
proof (induction k arbitrary: bs st)
  case 0
  then show ?case by simp
next
  case (Suc k)
  then obtain b bs' where bs: "bs = b # bs'" by (cases bs) auto
  with Suc show ?case by (simp add: Let_def)
qed

lemma fold_cell_length:
  "length (fold (\<lambda>l s. s[n - Suc l := mp_obj_new_cell (s ! (n - Suc l))]) ls st) = length st"
  by (rule fold_upd_length)

lemma fold_cell_nth:
  "\<forall>l\<in>set ls. l < n \<Longrightarrow> j < n \<Longrightarrow> length st = n \<Longrightarrow>
   fold (\<lambda>l s. s[n - Suc l := mp_obj_new_cell (s ! (n - Suc l))]) ls st ! (n - Suc j)
     = (mp_obj_new_cell ^^ count_list ls j) (st ! (n - Suc j))"
proof (induction ls arbitrary: st)
  case Nil
  then show ?case by simp
next
  case (Cons l ls)
  let ?st = "st[n - Suc l := mp_obj_new_cell (st ! (n - Suc l))]"
  have l: "l < n" using Cons.prems by simp
  have IH: "fold (\<lambda>l s. s[n - Suc l := mp_obj_new_cell (s ! (n - Suc l))]) ls ?st ! (n - Suc j)
     = (mp_obj_new_cell ^^ count_list ls j) (?st ! (n - Suc j))"
    using Cons by simp
  show ?case
  proof (cases "l = j")
    case True
    then show ?thesis using IH Cons.prems by (simp add: funpow_swap1)
  next
    case False
    then have "n - Suc l \<noteq> n - Suc j" using slot_eq_iff[OF l \<open>j < n\<close>] by simp
    then show ?thesis using IH False by simp
  qed
qed

lemma prelude_state_nth:
  assumes "unat (hd bs) \<le> length (tl bs)" and "\<forall>l\<in>set (closed_over bs). l < n"
    and "j < n" and "length st = n"
  shows "snd (closure_prelude n (unat (hd bs)) (tl bs) st) ! (n - Suc j)
           = boxed bs j (st ! (n - Suc j))"
  using assms
  by (simp add: closure_prelude_fold boxed_def closed_over_def fold_cell_nth)

subsection \<open>The loop over the keyword pairs\<close>

lemma find_arg_name_Some:
  "find_arg_name self q = Some j \<Longrightarrow> j < n_pos_args self + n_kwonly_args self \<and> args self ! j = q"
  unfolding find_arg_name_def by (auto simp: find_Some_iff)

lemma find_arg_name_None:
  "find_arg_name self q = None \<longleftrightarrow> (\<forall>j < n_pos_args self + n_kwonly_args self. args self ! j \<noteq> q)"
  unfolding find_arg_name_def by (auto simp: find_None_iff)

lemma bind_kwargs_append:
  "bind_kwargs self n vpk kwargs (xs @ ys) st =
     (case bind_kwargs self n vpk kwargs xs st of
        Inl e \<Rightarrow> Inl e
      | Inr st' \<Rightarrow> bind_kwargs self n vpk kwargs ys st')"
  by (induction xs arbitrary: st) (auto split: sum.splits)

lemma bind_kwarg_length:
  "bind_kwarg self n vpk kwargs i st = Inr st' \<Longrightarrow> length st' = length st"
  by (auto simp: bind_kwarg_def Let_def split: option.splits if_splits)

lemma bind_kwargs_length:
  "bind_kwargs self n vpk kwargs is st = Inr st' \<Longrightarrow> length st' = length st"
  by (induction "is" arbitrary: st) (auto split: sum.splits dest: bind_kwarg_length)

text \<open>A slot that holds a value keeps it (unless it is the dict's slot).\<close>

lemma bind_kwarg_keeps_filled:
  assumes "bind_kwarg self n vpk kwargs i st = Inr st'"
    and "st ! x \<noteq> MP_OBJ_NULL" and "takes_kw_args self \<Longrightarrow> x \<noteq> vpk"
  shows "st' ! x = st ! x"
  using assms
  by (auto simp: bind_kwarg_def Let_def split: option.splits if_splits
           intro!: nth_list_update_neq)

lemma bind_kwargs_keeps_filled:
  assumes "bind_kwargs self n vpk kwargs is st = Inr st'"
    and "st ! x \<noteq> MP_OBJ_NULL" and "takes_kw_args self \<Longrightarrow> x \<noteq> vpk"
  shows "st' ! x = st ! x"
  using assms
proof (induction "is" arbitrary: st)
  case Nil
  then show ?case by simp
next
  case (Cons i "is")
  then obtain st1 where s1: "bind_kwarg self n vpk kwargs i st = Inr st1"
    and s2: "bind_kwargs self n vpk kwargs is st1 = Inr st'"
    by (auto split: sum.splits)
  have "st1 ! x = st ! x" using bind_kwarg_keeps_filled[OF s1 Cons.prems(2,3)] .
  with Cons.IH[OF s2] Cons.prems show ?case by simp
qed

text \<open>The errors of the loop.\<close>

lemma bind_kwarg_error:
  "bind_kwarg self n vpk kwargs i st = Inl e \<Longrightarrow>
     e = DuplicateArgument (MP_OBJ_QSTR_VALUE (kwargs ! (2 * i)))
       \<and> find_arg_name self (MP_OBJ_QSTR_VALUE (kwargs ! (2 * i))) \<noteq> None
     \<or> e = UnexpectedKeyword \<and> \<not> takes_kw_args self
       \<and> find_arg_name self (MP_OBJ_QSTR_VALUE (kwargs ! (2 * i))) = None"
  by (auto simp: bind_kwarg_def Let_def split: option.splits if_splits)

lemma bind_kwargs_error:
  "bind_kwargs self n vpk kwargs is st = Inl e \<Longrightarrow>
     (\<exists>i\<in>set is. e = DuplicateArgument (MP_OBJ_QSTR_VALUE (kwargs ! (2 * i)))
         \<and> find_arg_name self (MP_OBJ_QSTR_VALUE (kwargs ! (2 * i))) \<noteq> None)
     \<or> e = UnexpectedKeyword \<and> \<not> takes_kw_args self
        \<and> (\<exists>i\<in>set is. find_arg_name self (MP_OBJ_QSTR_VALUE (kwargs ! (2 * i))) = None)"
proof (induction "is" arbitrary: st)
  case Nil
  then show ?case by simp
next
  case (Cons i "is")
  show ?case
  proof (cases "bind_kwarg self n vpk kwargs i st")
    case (Inl e')
    with Cons.prems have "e' = e" by simp
    with bind_kwarg_error[OF Inl] show ?thesis by auto
  next
    case (Inr st1)
    with Cons.prems have "bind_kwargs self n vpk kwargs is st1 = Inl e" by simp
    from Cons.IH[OF this] show ?thesis by auto
  qed
qed

subsection \<open>Defaults and keyword-only parameters\<close>

lemma fold_fill_keeps_filled:
  "st ! x \<noteq> MP_OBJ_NULL \<Longrightarrow>
   fold (\<lambda>t s. if s ! (f t) = MP_OBJ_NULL then s[f t := g t] else s) ts st ! x = st ! x"
proof (induction ts arbitrary: st)
  case Nil
  then show ?case by simp
next
  case (Cons t ts)
  have "(if st ! (f t) = MP_OBJ_NULL then st[f t := g t] else st) ! x = st ! x"
    using Cons.prems by (auto intro!: nth_list_update_neq)
  with Cons show ?case by simp
qed

lemma fill_def_pos_args_keeps_filled:
  "st ! x \<noteq> MP_OBJ_NULL \<Longrightarrow> fill_def_pos_args self n st ! x = st ! x"
  unfolding fill_def_pos_args_def by (rule fold_fill_keeps_filled)

lemma fill_kwonly_args_length:
  "fill_kwonly_args self n is st = Inr st' \<Longrightarrow> length st' = length st"
  by (induction "is" arbitrary: st) (auto split: if_splits option.splits)

lemma fill_kwonly_args_keeps_filled:
  "fill_kwonly_args self n is st = Inr st' \<Longrightarrow> st ! x \<noteq> MP_OBJ_NULL \<Longrightarrow> st' ! x = st ! x"
proof (induction "is" arbitrary: st)
  case Nil
  then show ?case by simp
next
  case (Cons i "is")
  show ?case
  proof (cases "st ! (n - 1 - n_pos_args self - i) = MP_OBJ_NULL")
    case True
    then obtain v where
      r: "fill_kwonly_args self n is (st[n - 1 - n_pos_args self - i := v]) = Inr st'"
      using Cons.prems(1) by (auto split: option.splits if_splits)
    have "st[n - 1 - n_pos_args self - i := v] ! x = st ! x"
      using True Cons.prems(2) by (auto intro!: nth_list_update_neq)
    with Cons.IH[OF r] Cons.prems(2) show ?thesis by simp
  next
    case False
    with Cons show ?thesis by simp
  qed
qed

lemma fill_kwonly_args_error:
  "fill_kwonly_args self n is st = Inl e \<Longrightarrow>
     \<exists>i\<in>set is. e = MissingRequiredKeyword (args self ! (n_pos_args self + i))"
  by (induction "is" arbitrary: st) (auto split: if_splits option.splits)

subsection \<open>The keyword half as a whole\<close>

lemma check_kw_args_length:
  "check_kw_args self n vpk n_kw kwargs st = Inr st' \<Longrightarrow> length st' = length st"
  by (auto simp: check_kw_args_def Let_def fill_def_pos_args_length
           split: if_splits sum.splits option.splits
           dest!: bind_kwargs_length fill_kwonly_args_length)

lemma check_kw_args_keeps_filled:
  assumes "check_kw_args self n vpk n_kw kwargs st = Inr st'"
    and "st ! x \<noteq> MP_OBJ_NULL" and "takes_kw_args self \<Longrightarrow> x \<noteq> vpk"
  shows "st' ! x = st ! x"
proof (cases "n_kw \<noteq> 0 \<or> has_def_kw_args self")
  case True
  let ?st1 = "if takes_kw_args self then st[vpk := mp_obj_new_dict n_kw] else st"
  have x1: "?st1 ! x = st ! x" using assms(3) by auto
  from assms(1) True obtain st2 where
    s2: "bind_kwargs self n vpk kwargs [0..<n_kw] ?st1 = Inr st2"
    and s3: "fill_kwonly_args self n [0..<n_kwonly_args self] (fill_def_pos_args self n st2) = Inr st'"
    by (auto simp: check_kw_args_def Let_def split: sum.splits option.splits)
  have "st2 ! x = st ! x"
    using bind_kwargs_keeps_filled[OF s2 _ assms(3)] x1 assms(2) by simp
  moreover have "fill_def_pos_args self n st2 ! x = st2 ! x"
    using calculation assms(2) by (simp add: fill_def_pos_args_keeps_filled)
  ultimately show ?thesis
    using fill_kwonly_args_keeps_filled[OF s3, of x] assms(2) by simp
next
  case False
  with assms show ?thesis
    by (auto simp: check_kw_args_def split: if_splits)
qed

lemma check_kw_args_error:
  "check_kw_args self n vpk n_kw kwargs st = Inl e \<Longrightarrow>
     (\<exists>q. e = DuplicateArgument q) \<or> e = UnexpectedKeyword \<and> \<not> takes_kw_args self
     \<or> (\<exists>k. e = MissingRequiredPositional k) \<or> (\<exists>q. e = MissingRequiredKeyword q)
     \<or> e = MissingKeywordOnly"
  by (auto simp: check_kw_args_def Let_def split: if_splits sum.splits option.splits
           dest!: bind_kwargs_error fill_kwonly_args_error)

subsection \<open>The positional half\<close>

lemma check_pos_args_slow:
  assumes "n_kw \<noteq> 0 \<or> has_def_kw_args self" and "n_args \<le> n_pos_args self \<or> takes_var_args self"
  shows "check_pos_args self n vpk n_args n_kw argv st =
           Inr (if takes_var_args self
                then st[vpk := mp_obj_new_tuple (n_args - n_pos_args self) (drop (n_pos_args self) argv)]
                else st,
                if takes_var_args self then vpk - 1 else vpk,
                min n_args (n_pos_args self))"
  using assms
  by (auto simp: check_pos_args_def mp_obj_new_tuple_def min_def)

subsection \<open>The binder as a whole\<close>

lemma mp_setup_code_state_unfold:
  "mp_setup_code_state cs self n_args n_kw argv =
     (case check_pos_args self (n_state cs) (n_state cs - 1 - n_pos_args self - n_kwonly_args self)
             n_args n_kw argv (replicate (n_state cs) MP_OBJ_NULL) of
        Inl e \<Rightarrow> Inl e
      | Inr (st1, vpk1, k1) \<Rightarrow>
          (case check_kw_args self (n_state cs) vpk1 n_kw (drop n_args argv)
                  (copy_pos_args (n_state cs) k1 argv st1) of
             Inl e \<Rightarrow> Inl e
           | Inr st3 \<Rightarrow>
               Inr (cs\<lparr> code_info := bytecode self, sp := -1, exc_sp := -1,
                        state := snd (closure_prelude (n_state cs) (unat (hd (ip cs))) (tl (ip cs)) st3),
                        ip := fst (closure_prelude (n_state cs) (unat (hd (ip cs))) (tl (ip cs)) st3) \<rparr>)))"
  by (simp add: mp_setup_code_state_def Let_def case_prod_beta split: sum.splits prod.splits)

lemma fold_fill_other:
  "\<forall>t\<in>set ts. f t \<noteq> x \<Longrightarrow>
   fold (\<lambda>t s. if s ! (f t) = MP_OBJ_NULL then s[f t := g t] else s) ts st ! x = st ! x"
  by (induction ts arbitrary: st) auto

lemma fill_def_pos_args_below:
  "x < n - n_pos_args self \<Longrightarrow> fill_def_pos_args self n st ! x = st ! x"
  unfolding fill_def_pos_args_def by (rule fold_fill_other) auto

text \<open>The keyword loop leaves alone the slot of a parameter that no keyword names.\<close>

lemma bind_kwarg_keeps_unnamed:
  assumes "bind_kwarg self n vpk kwargs i st = Inr st'"
    and "find_arg_name self (MP_OBJ_QSTR_VALUE (kwargs ! (2 * i))) \<noteq> Some j"
    and "j < n" and "n_pos_args self + n_kwonly_args self \<le> n"
    and "takes_kw_args self \<Longrightarrow> vpk \<noteq> n - Suc j"
  shows "st' ! (n - Suc j) = st ! (n - Suc j)"
proof (cases "find_arg_name self (MP_OBJ_QSTR_VALUE (kwargs ! (2 * i)))")
  case None
  with assms show ?thesis
    by (auto simp: bind_kwarg_def split: if_splits)
next
  case (Some j')
  then have "j' < n" using find_arg_name_Some[OF Some] assms(4) by simp
  then have "n - Suc j' \<noteq> n - Suc j"
    using slot_eq_iff[of j' n j] assms(2,3) Some by simp
  with assms(1) Some show ?thesis
    by (auto simp: bind_kwarg_def split: if_splits)
qed

lemma bind_kwargs_keeps_unnamed:
  assumes "bind_kwargs self n vpk kwargs is st = Inr st'"
    and "\<forall>i\<in>set is. find_arg_name self (MP_OBJ_QSTR_VALUE (kwargs ! (2 * i))) \<noteq> Some j"
    and "j < n" and "n_pos_args self + n_kwonly_args self \<le> n"
    and "takes_kw_args self \<Longrightarrow> vpk \<noteq> n - Suc j"
  shows "st' ! (n - Suc j) = st ! (n - Suc j)"
  using assms(1,2)
proof (induction "is" arbitrary: st)
  case Nil
  then show ?case by simp
next
  case (Cons i "is")
  then obtain st1 where s1: "bind_kwarg self n vpk kwargs i st = Inr st1"
    and s2: "bind_kwargs self n vpk kwargs is st1 = Inr st'"
    by (auto split: sum.splits)
  have "st1 ! (n - Suc j) = st ! (n - Suc j)"
    using bind_kwarg_keeps_unnamed[OF s1 _ assms(3,4,5)] Cons.prems(2) by simp
  with Cons.IH[OF s2] Cons.prems(2) show ?case by simp
qed

text \<open>A keyword-only parameter with neither value nor default stops the last loop.\<close>

lemma fill_kwonly_args_fails:
  assumes "st ! (n - 1 - n_pos_args self - i) = MP_OBJ_NULL"
    and "has_def_kw_args self \<Longrightarrow>
           mp_map_lookup (extra_args self ! n_def_args self)
             (MP_OBJ_NEW_QSTR (args self ! (n_pos_args self + i))) = None"
    and "\<forall>i'\<in>set pre. n - 1 - n_pos_args self - i' \<noteq> n - 1 - n_pos_args self - i"
  shows "\<exists>i'\<in>set (pre @ [i]). fill_kwonly_args self n (pre @ i # post) st
            = Inl (MissingRequiredKeyword (args self ! (n_pos_args self + i')))"
  using assms(1,3)
proof (induction pre arbitrary: st)
  case Nil
  then show ?case using assms(2) by (auto split: option.splits)
next
  case (Cons i' pre)
  have ne: "n - 1 - n_pos_args self - i' \<noteq> n - 1 - n_pos_args self - i"
    and rest: "\<forall>i'\<in>set pre. n - 1 - n_pos_args self - i' \<noteq> n - 1 - n_pos_args self - i"
    using Cons.prems(2) by simp_all
  show ?case
  proof (cases "st ! (n - 1 - n_pos_args self - i') = MP_OBJ_NULL")
    case False
    then show ?thesis using Cons.IH[OF Cons.prems(1) rest] by auto
  next
    case True
    show ?thesis
    proof (cases "if has_def_kw_args self
               then mp_map_lookup (extra_args self ! n_def_args self)
                      (MP_OBJ_NEW_QSTR (args self ! (n_pos_args self + i')))
               else None")
      case None
      then show ?thesis using True by simp
    next
      case (Some v)
      have "st[n - 1 - n_pos_args self - i' := v] ! (n - 1 - n_pos_args self - i) = MP_OBJ_NULL"
        using ne Cons.prems(1) by simp
      from Cons.IH[OF this rest] show ?thesis using True Some by auto
    qed
  qed
qed

subsection \<open>The dict of the unmatched keywords\<close>

lemma update_fresh: "k \<notin> fst ` set al \<Longrightarrow> AList.update k v al = al @ [(k, v)]"
  by (induction al) auto

lemma fold_update_distinct:
  "distinct (map fst (al @ ps)) \<Longrightarrow>
   fold (\<lambda>(k, v). AList.update k v) ps al = al @ ps"
proof (induction ps arbitrary: al)
  case Nil
  then show ?case by simp
next
  case (Cons p ps)
  obtain k v where p: "p = (k, v)" by (cases p)
  have fresh: "k \<notin> fst ` set al" using Cons.prems p by auto
  have "distinct (map fst ((al @ [(k, v)]) @ ps))" using Cons.prems p by simp
  from Cons.IH[OF this] show ?case using p fresh by (simp add: update_fresh)
qed

lemma fold_update_map_of:
  "map_of (fold (\<lambda>(k, v). AList.update k v) ps al) = map_of (rev ps @ al)"
proof (induction ps arbitrary: al)
  case Nil
  then show ?case by simp
next
  case (Cons p ps)
  obtain k v where p: "p = (k, v)" by (cases p)
  have "map_of (fold (\<lambda>(k, v). AList.update k v) (p # ps) al)
          = map_of (rev ps @ AList.update k v al)"
    using Cons.IH[of "AList.update k v al"] p by simp
  also have "\<dots> = map_of (rev (p # ps) @ al)"
    by (simp add: p update_conv' map_add_upd_left fun_eq_iff map_add_def split: option.splits)
  finally show ?case .
qed

lemma bind_kwargs_dict:
  assumes "takes_kw_args self"
    and "bind_kwargs self n vpk kwargs is st = Inr st'"
    and "st ! vpk = Dict d" and "vpk < length st"
    and "\<forall>j < n_pos_args self + n_kwonly_args self. n - Suc j \<noteq> vpk"
  shows "st' ! vpk = Dict (fold (\<lambda>(k, v). AList.update k v) (unmatched_kwargs self kwargs is) d)"
  using assms(2,3,4)
proof (induction "is" arbitrary: st d)
  case Nil
  then show ?case by (simp add: unmatched_kwargs_def)
next
  case (Cons i "is")
  then obtain st1 where s1: "bind_kwarg self n vpk kwargs i st = Inr st1"
    and s2: "bind_kwargs self n vpk kwargs is st1 = Inr st'"
    by (auto split: sum.splits)
  have len1: "vpk < length st1" using bind_kwarg_length[OF s1] Cons.prems(3) by simp
  show ?case
  proof (cases "find_arg_name self (MP_OBJ_QSTR_VALUE (kwargs ! (2 * i)))")
    case None
    then have "st1 ! vpk = Dict (AList.update (kwargs ! (2 * i)) (kwargs ! (2 * i + 1)) d)"
      using s1 assms(1) Cons.prems(2,3) by (auto simp: bind_kwarg_def)
    from Cons.IH[OF s2 this len1] show ?thesis
      using None by (simp add: unmatched_kwargs_def)
  next
    case (Some j)
    then have "n - Suc j \<noteq> vpk" using find_arg_name_Some[OF Some] assms(5) by simp
    then have "st1 ! vpk = Dict d"
      using s1 Some Cons.prems(2) by (auto simp: bind_kwarg_def split: if_splits)
    from Cons.IH[OF s2 this len1] show ?thesis
      using Some by (simp add: unmatched_kwargs_def)
  qed
qed

lemma after_kw_loop_error:
  "after_kw_loop cs self st2 = Inl e \<Longrightarrow>
     (\<exists>k. e = MissingRequiredPositional k) \<or> (\<exists>q. e = MissingRequiredKeyword q)"
  by (auto simp: after_kw_loop_def split: option.splits sum.splits dest!: fill_kwonly_args_error)

lemma after_kw_loop_keeps_filled:
  assumes "after_kw_loop cs self st2 = Inr cs'" and "st2 ! (n_state cs - Suc j) \<noteq> MP_OBJ_NULL"
    and "length st2 = n_state cs" and "j < n_state cs"
    and "unat (hd (ip cs)) \<le> length (tl (ip cs))"
    and "\<forall>l \<in> set (closed_over (ip cs)). l < n_state cs"
  shows "state cs' ! (n_state cs - Suc j) = boxed (ip cs) j (st2 ! (n_state cs - Suc j))"
proof -
  let ?n = "n_state cs"
  let ?st3 = "fill_def_pos_args self ?n st2"
  from assms(1) obtain st4 where
    f: "fill_kwonly_args self ?n [0..<n_kwonly_args self] ?st3 = Inr st4"
    and cs': "state cs' = snd (closure_prelude ?n (unat (hd (ip cs))) (tl (ip cs)) st4)"
    by (auto simp: after_kw_loop_def split: option.splits sum.splits)
  have "?st3 ! (?n - Suc j) = st2 ! (?n - Suc j)"
    using assms(2) by (rule fill_def_pos_args_keeps_filled)
  then have s4: "st4 ! (?n - Suc j) = st2 ! (?n - Suc j)"
    using fill_kwonly_args_keeps_filled[OF f, of "?n - Suc j"] assms(2) by simp
  have len4: "length st4 = ?n"
    using fill_kwonly_args_length[OF f] assms(3) by (simp add: fill_def_pos_args_length)
  show ?thesis
    unfolding cs' using prelude_state_nth[OF assms(5,6,4) len4] s4 by simp
qed

text \<open>
  The keyword path: when the call has keywords or the callable has keyword defaults, and
  the positional count passes the first check, the binder is the keyword loop run on a
  state \<open>st\<close> that holds the positional arguments in their slots and nothing in the
  other parameter slots, followed by \<open>after_kw_loop\<close>.
\<close>

lemma keyword_path:
  assumes arity: "n_args \<le> n_pos_args self \<or> takes_var_args self"
    and slow: "n_kw \<noteq> 0 \<or> has_def_kw_args self"
    and frame: "n_pos_args self + n_kwonly_args self + (if takes_var_args self then 1 else 0)
                  + (if takes_kw_args self then 1 else 0) \<le> n_state cs"
  obtains st vpk where
    "length st = n_state cs"
    "\<And>j. j < n_args \<Longrightarrow> j < n_pos_args self \<Longrightarrow> st ! (n_state cs - Suc j) = argv ! j"
    "\<And>j. n_args \<le> j \<or> n_pos_args self \<le> j \<Longrightarrow> j < n_pos_args self + n_kwonly_args self
        \<Longrightarrow> st ! (n_state cs - Suc j) = MP_OBJ_NULL"
    "takes_var_args self \<Longrightarrow>
       st ! (n_state cs - Suc (n_pos_args self + n_kwonly_args self))
         = mp_obj_new_tuple (n_args - n_pos_args self) (drop (n_pos_args self) argv)"
    "takes_kw_args self \<Longrightarrow>
       vpk = n_state cs - Suc (n_pos_args self + n_kwonly_args self
                                 + (if takes_var_args self then 1 else 0))
       \<and> vpk < n_state cs \<and> st ! vpk = Dict []"
    "mp_setup_code_state cs self n_args n_kw argv =
       (case bind_kwargs self (n_state cs) vpk (drop n_args argv) [0..<n_kw] st of
          Inl e \<Rightarrow> Inl e
        | Inr st2 \<Rightarrow> after_kw_loop cs self st2)"
proof -
  let ?n = "n_state cs" and ?P = "n_pos_args self" and ?K = "n_kwonly_args self"
  define vpk0 where "vpk0 = ?n - 1 - ?P - ?K"
  define tup where "tup = mp_obj_new_tuple (n_args - ?P) (drop ?P argv)"
  define st1 where "st1 = (if takes_var_args self
              then (replicate ?n MP_OBJ_NULL)[vpk0 := tup] else replicate ?n MP_OBJ_NULL)"
  define vpk where "vpk = (if takes_var_args self then vpk0 - 1 else vpk0)"
  define k1 where "k1 = min n_args ?P"
  define st2 where "st2 = copy_pos_args ?n k1 argv st1"
  define st where "st = (if takes_kw_args self then st2[vpk := mp_obj_new_dict n_kw] else st2)"
  have PK: "?P + ?K \<le> ?n" using frame by simp
  have k1: "k1 \<le> ?n" using PK by (simp add: k1_def)
  have len1: "length st1 = ?n" by (simp add: st1_def)
  have len2: "length st2 = ?n" using len1 by (simp add: st2_def copy_pos_args_length)
  have len: "length st = ?n" using len2 by (simp add: st_def)
  have pos: "check_pos_args self ?n (?n - 1 - ?P - ?K) n_args n_kw argv (replicate ?n MP_OBJ_NULL)
               = Inr (st1, vpk, k1)"
    using check_pos_args_slow[OF slow arity]
    by (simp add: st1_def vpk_def k1_def tup_def vpk0_def)
  have v0: "vpk0 = ?n - Suc (?P + ?K)" by (simp add: vpk0_def)
  have v0n: "vpk0 < ?n" if "takes_var_args self" using that frame by (simp add: v0)
  have vk: "vpk = ?n - Suc (?P + ?K + (if takes_var_args self then 1 else 0)) \<and> vpk < ?n"
    if "takes_kw_args self"
    using that frame by (auto simp: vpk_def v0)
  have ne0: "vpk0 \<noteq> ?n - Suc j" if "takes_var_args self" "j < ?P + ?K" for j
    using that frame by (simp add: v0)
  have nek: "vpk \<noteq> ?n - Suc j" if "takes_kw_args self" "j < ?P + ?K" for j
    using that frame vk by (auto split: if_splits)
  have nev: "vpk \<noteq> vpk0" if "takes_kw_args self" "takes_var_args self"
    using that frame vk by (simp add: v0)
  have s1: "st1 ! (?n - Suc j) = MP_OBJ_NULL" if "j < ?P + ?K" for j
    using that PK ne0[OF _ that] by (auto simp: st1_def)
  have s2: "st2 ! (?n - Suc j) = (if j < k1 then argv ! j else MP_OBJ_NULL)" if "j < ?P + ?K" for j
    unfolding st2_def using copy_pos_args_nth[OF len1 k1, of j argv] s1[OF that] that PK by simp
  have s: "st ! (?n - Suc j) = (if j < k1 then argv ! j else MP_OBJ_NULL)" if "j < ?P + ?K" for j
    using s2[OF that] nek[OF _ that] by (auto simp: st_def)
  have a: "st ! (?n - Suc j) = argv ! j" if "j < n_args" "j < ?P" for j
    using s[of j] that by (simp add: k1_def)
  have b: "st ! (?n - Suc j) = MP_OBJ_NULL" if "n_args \<le> j \<or> ?P \<le> j" "j < ?P + ?K" for j
    using s[OF that(2)] that by (auto simp: k1_def)
  have c: "st ! (?n - Suc (?P + ?K)) = tup" if "takes_var_args self"
  proof -
    have lt: "?P + ?K < ?n" using that frame by simp
    have "st1 ! vpk0 = tup" using that v0n[OF that] by (simp add: st1_def)
    moreover have "st2 ! (?n - Suc (?P + ?K)) = st1 ! (?n - Suc (?P + ?K))"
      unfolding st2_def using copy_pos_args_nth[OF len1 k1 lt, of argv]
      by (simp add: k1_def)
    ultimately show ?thesis using nev[OF _ that] by (auto simp: st_def v0)
  qed
  have d: "vpk = ?n - Suc (?P + ?K + (if takes_var_args self then 1 else 0))
             \<and> vpk < ?n \<and> st ! vpk = Dict []" if "takes_kw_args self"
    using vk[OF that] that len2 by (simp add: st_def mp_obj_new_dict_def)
  have e: "mp_setup_code_state cs self n_args n_kw argv =
       (case bind_kwargs self ?n vpk (drop n_args argv) [0..<n_kw] st of
          Inl e \<Rightarrow> Inl e
        | Inr st2 \<Rightarrow> after_kw_loop cs self st2)"
    unfolding mp_setup_code_state_unfold pos
    using slow
    by (simp add: check_kw_args_def after_kw_loop_def st_def st2_def Let_def
             split: sum.splits option.splits)
  show thesis
    using that[OF len a b c[unfolded tup_def] d e] by blast
qed

lemma upt_split_at: "i < m \<Longrightarrow> [0..<m] = [0..<i] @ i # [Suc i..<m]"
proof -
  assume i: "i < m"
  have "[0..<m] = [0..<i] @ [i..<m]"
    using i upt_add_eq_append[of 0 i "m - i"] by simp
  then show ?thesis using i by (simp add: upt_conv_Cons)
qed

subsection \<open>The keyword loop, pair by pair\<close>

text \<open>
  Run on the state that holds the positional arguments, the loop binds the pairs up to the
  first offending one: after \<open>m\<close> pairs without offence a parameter's slot holds its
  positional argument, or the value of the pair that names it, or nothing.
\<close>

lemma find_arg_name_same:
  "find_arg_name self q = Some j \<Longrightarrow> find_arg_name self q' = Some j \<Longrightarrow> q = q'"
  by (auto dest!: find_arg_name_Some)

lemma kw_loop_no_offender:
  assumes len: "length st = n" and PK: "n_pos_args self + n_kwonly_args self \<le> n"
    and pos: "\<And>j. j < n_args \<Longrightarrow> j < n_pos_args self \<Longrightarrow> st ! (n - Suc j) = argv ! j"
    and empty: "\<And>j. n_args \<le> j \<or> n_pos_args self \<le> j
                  \<Longrightarrow> j < n_pos_args self + n_kwonly_args self \<Longrightarrow> st ! (n - Suc j) = MP_OBJ_NULL"
    and vpk: "\<And>j. takes_kw_args self \<Longrightarrow> j < n_pos_args self + n_kwonly_args self
                  \<Longrightarrow> vpk \<noteq> n - Suc j"
    and nm: "\<And>i. kwargs ! (2 * i) = argv ! (n_args + 2 * i)"
    and vl: "\<And>i. kwargs ! (2 * i + 1) = argv ! (n_args + 2 * i + 1)"
  shows "\<forall>i < m. \<not> offending self n_args argv i \<Longrightarrow>
         \<exists>st2. bind_kwargs self n vpk kwargs [0..<m] st = Inr st2 \<and> length st2 = n
           \<and> (\<forall>j < n_pos_args self + n_kwonly_args self.
                 (j < n_args \<and> j < n_pos_args self \<longrightarrow> st2 ! (n - Suc j) = argv ! j)
               \<and> (\<forall>i < m. find_arg_name self (kw_name n_args argv i) = Some j
                      \<longrightarrow> st2 ! (n - Suc j) = argv ! (n_args + 2 * i + 1))
               \<and> (\<not> (j < n_args \<and> j < n_pos_args self)
                    \<and> (\<forall>i < m. find_arg_name self (kw_name n_args argv i) \<noteq> Some j)
                    \<longrightarrow> st2 ! (n - Suc j) = MP_OBJ_NULL))"
proof (induction m)
  case 0
  show ?case using len pos empty by auto
next
  case (Suc m)
  let ?PK = "n_pos_args self + n_kwonly_args self"
  let ?positional = "\<lambda>j. j < n_args \<and> j < n_pos_args self"
  let ?named = "\<lambda>i j. find_arg_name self (kw_name n_args argv i) = Some j"
  from Suc obtain sm where
    loop: "bind_kwargs self n vpk kwargs [0..<m] st = Inr sm" and lenm: "length sm = n"
    and inv1: "\<And>j. j < ?PK \<Longrightarrow> ?positional j \<Longrightarrow> sm ! (n - Suc j) = argv ! j"
    and inv2: "\<And>j i. j < ?PK \<Longrightarrow> i < m \<Longrightarrow> ?named i j
                 \<Longrightarrow> sm ! (n - Suc j) = argv ! (n_args + 2 * i + 1)"
    and inv3: "\<And>j. j < ?PK \<Longrightarrow> \<not> ?positional j \<Longrightarrow> \<forall>i < m. \<not> ?named i j
                 \<Longrightarrow> sm ! (n - Suc j) = MP_OBJ_NULL"
    by (auto simp: less_Suc_eq)
  have ok: "\<not> offending self n_args argv m" using Suc.prems by simp
  have name: "MP_OBJ_QSTR_VALUE (kwargs ! (2 * m)) = kw_name n_args argv m"
    by (simp add: kw_name_def nm)
  have app: "bind_kwargs self n vpk kwargs [0..<Suc m] st
               = bind_kwarg self n vpk kwargs m sm"
    using loop by (simp add: bind_kwargs_append split: sum.splits)
  show ?case
  proof (cases "find_arg_name self (kw_name n_args argv m)")
    case None
    then have kw: "takes_kw_args self" using ok by (simp add: offending_def)
    define s' where "s' = sm[vpk := mp_obj_dict_store (sm ! vpk) (kwargs ! (2 * m))
                                       (kwargs ! (2 * m + 1))]"
    have step: "bind_kwarg self n vpk kwargs m sm = Inr s'"
      using None kw name by (simp add: bind_kwarg_def s'_def)
    have same: "s' ! (n - Suc j) = sm ! (n - Suc j)" if "j < ?PK" for j
      using vpk[OF kw that] by (simp add: s'_def)
    have len': "length s' = n" using lenm by (simp add: s'_def)
    have notm: "\<not> ?named m j" for j using None by simp
    have "(?positional j \<longrightarrow> s' ! (n - Suc j) = argv ! j)
        \<and> (\<forall>i < Suc m. ?named i j \<longrightarrow> s' ! (n - Suc j) = argv ! (n_args + 2 * i + 1))
        \<and> (\<not> ?positional j \<and> (\<forall>i < Suc m. \<not> ?named i j) \<longrightarrow> s' ! (n - Suc j) = MP_OBJ_NULL)"
      if j: "j < ?PK" for j
    proof (intro conjI impI allI)
      assume "?positional j"
      then show "s' ! (n - Suc j) = argv ! j" using inv1[OF j] same[OF j] by simp
    next
      fix i assume "i < Suc m" "?named i j"
      then have "i < m" using notm[of j] by (cases "i = m") auto
      then show "s' ! (n - Suc j) = argv ! (n_args + 2 * i + 1)"
        using inv2[OF j _ \<open>?named i j\<close>] same[OF j] by simp
    next
      assume "\<not> ?positional j \<and> (\<forall>i < Suc m. \<not> ?named i j)"
      then show "s' ! (n - Suc j) = MP_OBJ_NULL"
        using inv3[OF j] same[OF j] by simp
    qed
    then show ?thesis using app step len' by simp
  next
    case (Some j')
    have j': "j' < ?PK" using find_arg_name_Some[OF Some] by simp
    have notpos: "\<not> ?positional j'" and fresh: "\<forall>i < m. kw_name n_args argv i \<noteq> kw_name n_args argv m"
      using ok Some by (auto simp: offending_def)
    have unnamed: "\<forall>i < m. \<not> ?named i j'"
      using fresh Some find_arg_name_same by blast
    have null: "sm ! (n - Suc j') = MP_OBJ_NULL"
      using inv3[OF j' notpos unnamed] .
    define s' where "s' = sm[n - Suc j' := kwargs ! (2 * m + 1)]"
    have step: "bind_kwarg self n vpk kwargs m sm = Inr s'"
      using Some null name by (simp add: bind_kwarg_def s'_def)
    have len': "length s' = n" using lenm by (simp add: s'_def)
    have j'n: "j' < n" using j' PK by simp
    have at: "s' ! (n - Suc j') = argv ! (n_args + 2 * m + 1)"
      using lenm j'n vl[of m] by (simp add: s'_def)
    have same: "s' ! (n - Suc j) = sm ! (n - Suc j)" if "j < ?PK" "j \<noteq> j'" for j
    proof -
      have "j < n" using that PK by simp
      then have "n - Suc j' \<noteq> n - Suc j" using slot_eq_iff[OF j'n, of j] that by simp
      then show ?thesis by (simp add: s'_def)
    qed
    have "(?positional j \<longrightarrow> s' ! (n - Suc j) = argv ! j)
        \<and> (\<forall>i < Suc m. ?named i j \<longrightarrow> s' ! (n - Suc j) = argv ! (n_args + 2 * i + 1))
        \<and> (\<not> ?positional j \<and> (\<forall>i < Suc m. \<not> ?named i j) \<longrightarrow> s' ! (n - Suc j) = MP_OBJ_NULL)"
      if j: "j < ?PK" for j
    proof (cases "j = j'")
      case True
      have "i = m" if "i < Suc m" "?named i j" for i
        using that unnamed True by (cases "i = m") auto
      then show ?thesis using True notpos at Some by auto
    next
      case False
      have notm: "\<not> ?named m j" using Some False by simp
      show ?thesis
      proof (intro conjI impI allI)
        assume "?positional j"
        then show "s' ! (n - Suc j) = argv ! j" using inv1[OF j] same[OF j False] by simp
      next
        fix i assume "i < Suc m" "?named i j"
        then have "i < m" using notm by (cases "i = m") auto
        then show "s' ! (n - Suc j) = argv ! (n_args + 2 * i + 1)"
          using inv2[OF j _ \<open>?named i j\<close>] same[OF j False] by simp
      next
        assume "\<not> ?positional j \<and> (\<forall>i < Suc m. \<not> ?named i j)"
        then show "s' ! (n - Suc j) = MP_OBJ_NULL"
          using inv3[OF j] same[OF j False] by simp
      qed
    qed
    then show ?thesis using app step len' by simp
  qed
qed

lemma kw_loop_first_offender:
  assumes len: "length st = n" and PK: "n_pos_args self + n_kwonly_args self \<le> n"
    and pos: "\<And>j. j < n_args \<Longrightarrow> j < n_pos_args self \<Longrightarrow> st ! (n - Suc j) = argv ! j"
    and empty: "\<And>j. n_args \<le> j \<or> n_pos_args self \<le> j
                  \<Longrightarrow> j < n_pos_args self + n_kwonly_args self \<Longrightarrow> st ! (n - Suc j) = MP_OBJ_NULL"
    and vpk: "\<And>j. takes_kw_args self \<Longrightarrow> j < n_pos_args self + n_kwonly_args self
                  \<Longrightarrow> vpk \<noteq> n - Suc j"
    and nm: "\<And>i. kwargs ! (2 * i) = argv ! (n_args + 2 * i)"
    and vl: "\<And>i. kwargs ! (2 * i + 1) = argv ! (n_args + 2 * i + 1)"
    and nonnull: "\<And>x. x < n_args + 2 * n_kw \<Longrightarrow> argv ! x \<noteq> MP_OBJ_NULL"
    and i0: "i0 < n_kw" and off: "offending self n_args argv i0"
    and first: "\<forall>i < i0. \<not> offending self n_args argv i"
  shows "bind_kwargs self n vpk kwargs [0..<n_kw] st = Inl (kw_error self n_args argv i0)"
proof -
  let ?PK = "n_pos_args self + n_kwonly_args self"
  from kw_loop_no_offender[OF len PK pos empty vpk nm vl first]
  obtain sm where
    loop: "bind_kwargs self n vpk kwargs [0..<i0] st = Inr sm" and lenm: "length sm = n"
    and inv: "\<forall>j < ?PK.
                 (j < n_args \<and> j < n_pos_args self \<longrightarrow> sm ! (n - Suc j) = argv ! j)
               \<and> (\<forall>i < i0. find_arg_name self (kw_name n_args argv i) = Some j
                      \<longrightarrow> sm ! (n - Suc j) = argv ! (n_args + 2 * i + 1))
               \<and> (\<not> (j < n_args \<and> j < n_pos_args self)
                    \<and> (\<forall>i < i0. find_arg_name self (kw_name n_args argv i) \<noteq> Some j)
                    \<longrightarrow> sm ! (n - Suc j) = MP_OBJ_NULL)"
    by blast
  have name: "MP_OBJ_QSTR_VALUE (kwargs ! (2 * i0)) = kw_name n_args argv i0"
    by (simp add: kw_name_def nm)
  have step: "bind_kwarg self n vpk kwargs i0 sm = Inl (kw_error self n_args argv i0)"
  proof (cases "find_arg_name self (kw_name n_args argv i0)")
    case None
    then have "\<not> takes_kw_args self" using off by (simp add: offending_def)
    then show ?thesis using None name by (simp add: bind_kwarg_def kw_error_def)
  next
    case (Some j')
    have j': "j' < ?PK" using find_arg_name_Some[OF Some] by simp
    have "sm ! (n - Suc j') \<noteq> MP_OBJ_NULL"
    proof (cases "j' < n_args \<and> j' < n_pos_args self")
      case True
      then have "sm ! (n - Suc j') = argv ! j'" using inv j' by blast
      moreover have "j' < n_args + 2 * n_kw" using True by simp
      ultimately show ?thesis using nonnull by simp
    next
      case False
      then obtain i' where i': "i' < i0" "kw_name n_args argv i' = kw_name n_args argv i0"
        using off Some by (auto simp: offending_def)
      then have "find_arg_name self (kw_name n_args argv i') = Some j'" using Some by simp
      then have "sm ! (n - Suc j') = argv ! (n_args + 2 * i' + 1)" using inv j' i'(1) by blast
      moreover have "n_args + 2 * i' + 1 < n_args + 2 * n_kw" using i'(1) i0 by simp
      ultimately show ?thesis using nonnull by simp
    qed
    then show ?thesis using Some name by (simp add: bind_kwarg_def kw_error_def)
  qed
  show ?thesis
    unfolding upt_split_at[OF i0] bind_kwargs_append loop using step by simp
qed

subsection \<open>After the keyword loop\<close>

lemma find_upt_Some:
  assumes "a \<le> d" "d < b" "Q d" "\<forall>d'. a \<le> d' \<and> d' < d \<longrightarrow> \<not> Q d'"
  shows "find Q [a..<b] = Some d"
proof -
  have "d - a < length [a..<b]" using assms(1,2) by simp
  moreover have "[a..<b] ! (d - a) = d" using assms(1,2) by simp
  moreover have "\<forall>j < d - a. \<not> Q ([a..<b] ! j)"
    using assms by auto
  ultimately show ?thesis
    using assms(3) unfolding find_Some_iff by metis
qed

text \<open>The check of the mandatory positional parameters, read on the state after the loop.\<close>

lemma after_kw_loop_missing_positional:
  assumes len: "length st2 = n_state cs" and Pn: "n_pos_args self \<le> n_state cs"
    and D: "n_def_args self \<le> n_pos_args self"
    and j: "j < n_pos_args self - n_def_args self"
    and null: "st2 ! (n_state cs - Suc j) = MP_OBJ_NULL"
    and above: "\<forall>j'. j < j' \<and> j' < n_pos_args self - n_def_args self
                  \<longrightarrow> st2 ! (n_state cs - Suc j') \<noteq> MP_OBJ_NULL"
  shows "after_kw_loop cs self st2 = Inl (MissingRequiredPositional j)"
proof -
  let ?n = "n_state cs" and ?P = "n_pos_args self" and ?D = "n_def_args self"
  let ?st3 = "fill_def_pos_args self ?n st2"
  have same: "?st3 ! (?n - Suc j') = st2 ! (?n - Suc j')" if "j' < ?P - ?D" for j'
  proof -
    have "j' < ?n" using that Pn by simp
    from fill_def_pos_args_nth[OF len Pn D this] that show ?thesis by simp
  qed
  have a: "?n - ?P + ?D \<le> ?n - Suc j" using j Pn D by arith
  have b: "?n - Suc j < ?n" using j Pn by arith
  have c: "?st3 ! (?n - Suc j) = MP_OBJ_NULL" using same[OF j] null by simp
  have d: "\<forall>d'. ?n - ?P + ?D \<le> d' \<and> d' < ?n - Suc j \<longrightarrow> ?st3 ! d' \<noteq> MP_OBJ_NULL"
  proof (intro allI impI)
    fix d' assume d': "?n - ?P + ?D \<le> d' \<and> d' < ?n - Suc j"
    define j' where "j' = ?n - Suc d'"
    have dj: "d' = ?n - Suc j'" and jj: "j < j'" and jb: "j' < ?P - ?D"
      using d' Pn D j by (auto simp: j'_def)
    show "?st3 ! d' \<noteq> MP_OBJ_NULL"
      unfolding dj using same[OF jb] above jj jb by simp
  qed
  have "find (\<lambda>d. ?st3 ! d = MP_OBJ_NULL) [?n - ?P + ?D..<?n] = Some (?n - Suc j)"
    by (rule find_upt_Some[OF a b c d])
  moreover have "?n - (?n - Suc j + 1) = j" using j Pn by arith
  ultimately show ?thesis by (simp add: after_kw_loop_def)
qed

lemma mandatory_positional_filled:
  assumes len: "length st2 = n_state cs" and Pn: "n_pos_args self \<le> n_state cs"
    and D: "n_def_args self \<le> n_pos_args self"
    and filled: "\<forall>j < n_pos_args self - n_def_args self. st2 ! (n_state cs - Suc j) \<noteq> MP_OBJ_NULL"
  shows "find (\<lambda>d. fill_def_pos_args self (n_state cs) st2 ! d = MP_OBJ_NULL)
              [n_state cs - n_pos_args self + n_def_args self..<n_state cs] = None"
proof -
  let ?n = "n_state cs" and ?P = "n_pos_args self" and ?D = "n_def_args self"
  have "fill_def_pos_args self ?n st2 ! d \<noteq> MP_OBJ_NULL"
    if d: "d \<in> set [?n - ?P + ?D..<?n]" for d
  proof -
    define j where "j = ?n - Suc d"
    have dj: "d = ?n - Suc j" and jb: "j < ?P - ?D"
      using d Pn D by (auto simp: j_def)
    have "st2 ! d \<noteq> MP_OBJ_NULL" using filled jb dj by simp
    then show ?thesis by (simp add: fill_def_pos_args_keeps_filled)
  qed
  then show ?thesis by (auto simp: find_None_iff)
qed

text \<open>The loop over the keyword-only parameters.\<close>

lemma fill_kwonly_args_first_missing:
  assumes "st ! (n - 1 - n_pos_args self - i) = MP_OBJ_NULL" and "kw_default self i = None"
    and "\<forall>i'\<in>set pre. n - 1 - n_pos_args self - i' \<noteq> n - 1 - n_pos_args self - i"
    and "\<forall>i'\<in>set pre. st ! (n - 1 - n_pos_args self - i') \<noteq> MP_OBJ_NULL
                         \<or> kw_default self i' \<noteq> None"
  shows "fill_kwonly_args self n (pre @ i # post) st
           = Inl (MissingRequiredKeyword (args self ! (n_pos_args self + i)))"
  using assms(1,3,4)
proof (induction pre arbitrary: st)
  case Nil
  then show ?case using assms(2) by (simp add: kw_default_def)
next
  case (Cons i' pre)
  let ?slot = "\<lambda>k. n - 1 - n_pos_args self - k"
  have ne: "?slot i' \<noteq> ?slot i"
    and rest: "\<forall>k\<in>set pre. ?slot k \<noteq> ?slot i"
    and ok': "st ! ?slot i' \<noteq> MP_OBJ_NULL \<or> kw_default self i' \<noteq> None"
    and oks: "\<forall>k\<in>set pre. st ! ?slot k \<noteq> MP_OBJ_NULL \<or> kw_default self k \<noteq> None"
    using Cons.prems by simp_all
  show ?case
  proof (cases "st ! ?slot i' = MP_OBJ_NULL")
    case False
    then show ?thesis using Cons.IH[OF Cons.prems(1) rest oks] by simp
  next
    case True
    then obtain v where v: "kw_default self i' = Some v" using ok' by auto
    let ?st' = "st[?slot i' := v]"
    have 1: "?st' ! ?slot i = MP_OBJ_NULL" using ne Cons.prems(1) by simp
    have 2: "\<forall>k\<in>set pre. ?st' ! ?slot k \<noteq> MP_OBJ_NULL \<or> kw_default self k \<noteq> None"
    proof
      fix k assume k: "k \<in> set pre"
      show "?st' ! ?slot k \<noteq> MP_OBJ_NULL \<or> kw_default self k \<noteq> None"
      proof (cases "?slot k = ?slot i'")
        case True
        then have "st ! ?slot k = MP_OBJ_NULL" using \<open>st ! ?slot i' = MP_OBJ_NULL\<close> by simp
        then show ?thesis using oks k by blast
      next
        case False
        then have "?st' ! ?slot k = st ! ?slot k" by simp
        then show ?thesis using oks k by auto
      qed
    qed
    from Cons.IH[OF 1 rest 2] show ?thesis
      using True v by (simp add: kw_default_def split: if_splits)
  qed
qed

lemma fill_kwonly_args_succeeds:
  "\<forall>i\<in>set is. st ! (n - 1 - n_pos_args self - i) \<noteq> MP_OBJ_NULL \<or> kw_default self i \<noteq> None
   \<Longrightarrow> \<exists>st'. fill_kwonly_args self n is st = Inr st'"
proof (induction "is" arbitrary: st)
  case Nil
  then show ?case by simp
next
  case (Cons i "is")
  let ?slot = "\<lambda>k. n - 1 - n_pos_args self - k"
  have ok': "st ! ?slot i \<noteq> MP_OBJ_NULL \<or> kw_default self i \<noteq> None"
    and oks: "\<forall>k\<in>set is. st ! ?slot k \<noteq> MP_OBJ_NULL \<or> kw_default self k \<noteq> None"
    using Cons.prems by simp_all
  show ?case
  proof (cases "st ! ?slot i = MP_OBJ_NULL")
    case False
    then show ?thesis using Cons.IH[OF oks] by simp
  next
    case True
    then obtain v where v: "kw_default self i = Some v" using ok' by auto
    let ?st' = "st[?slot i := v]"
    have 2: "\<forall>k\<in>set is. ?st' ! ?slot k \<noteq> MP_OBJ_NULL \<or> kw_default self k \<noteq> None"
    proof
      fix k assume k: "k \<in> set is"
      show "?st' ! ?slot k \<noteq> MP_OBJ_NULL \<or> kw_default self k \<noteq> None"
      proof (cases "?slot k = ?slot i")
        case True
        then have "st ! ?slot k = MP_OBJ_NULL" using \<open>st ! ?slot i = MP_OBJ_NULL\<close> by simp
        then show ?thesis using oks k by blast
      next
        case False
        then have "?st' ! ?slot k = st ! ?slot k" by simp
        then show ?thesis using oks k by auto
      qed
    qed
    from Cons.IH[OF 2] show ?thesis
      using True v by (simp add: kw_default_def split: if_splits)
  qed
qed

text \<open>
  The binder on the keyword path when no keyword pair offends: the loop runs through and
  leaves a value exactly in the slots of the supplied parameters.
\<close>

lemma binder_no_offender:
  assumes argv: "length argv = n_args + 2 * n_kw"
    and arity: "n_args \<le> n_pos_args self \<or> takes_var_args self"
    and slow: "n_kw \<noteq> 0 \<or> has_def_kw_args self"
    and frame: "n_pos_args self + n_kwonly_args self + (if takes_var_args self then 1 else 0)
                  + (if takes_kw_args self then 1 else 0) \<le> n_state cs"
    and nonnull: "MP_OBJ_NULL \<notin> set argv"
    and ok: "\<forall>i < n_kw. \<not> offending self n_args argv i"
  obtains st2 where
    "mp_setup_code_state cs self n_args n_kw argv = after_kw_loop cs self st2"
    "length st2 = n_state cs"
    "\<And>j. j < n_pos_args self + n_kwonly_args self \<Longrightarrow>
       (st2 ! (n_state cs - Suc j) \<noteq> MP_OBJ_NULL) = supplied self n_args n_kw argv j"
proof (rule keyword_path[OF arity slow frame, of argv])
  let ?n = "n_state cs" and ?PK = "n_pos_args self + n_kwonly_args self"
  let ?kwargs = "drop n_args argv"
  fix st vpk
  assume len: "length st = ?n"
    and pos: "\<And>j. j < n_args \<Longrightarrow> j < n_pos_args self \<Longrightarrow> st ! (?n - Suc j) = argv ! j"
    and empty: "\<And>j. n_args \<le> j \<or> n_pos_args self \<le> j \<Longrightarrow> j < ?PK
                  \<Longrightarrow> st ! (?n - Suc j) = MP_OBJ_NULL"
    and dict: "takes_kw_args self \<Longrightarrow>
       vpk = ?n - Suc (?PK + (if takes_var_args self then 1 else 0))
       \<and> vpk < ?n \<and> st ! vpk = Dict []"
    and r: "mp_setup_code_state cs self n_args n_kw argv =
       (case bind_kwargs self ?n vpk ?kwargs [0..<n_kw] st of
          Inl e \<Rightarrow> Inl e
        | Inr st2 \<Rightarrow> after_kw_loop cs self st2)"
  have PK: "?PK \<le> ?n" using frame by simp
  have vpk: "vpk \<noteq> ?n - Suc j" if "takes_kw_args self" "j < ?PK" for j
    using dict[OF that(1)] that frame by (auto split: if_splits)
  have nm: "?kwargs ! (2 * i) = argv ! (n_args + 2 * i)" for i
    using argv by simp
  have vl: "?kwargs ! (2 * i + 1) = argv ! (n_args + 2 * i + 1)" for i
    using argv by (simp add: add.assoc)
  have nn: "argv ! x \<noteq> MP_OBJ_NULL" if "x < n_args + 2 * n_kw" for x
    using nonnull that argv by (metis nth_mem)
  from kw_loop_no_offender[OF len PK pos empty vpk nm vl ok]
  obtain st2 where
    loop: "bind_kwargs self ?n vpk ?kwargs [0..<n_kw] st = Inr st2" and len2: "length st2 = ?n"
    and inv: "\<forall>j < ?PK.
                 (j < n_args \<and> j < n_pos_args self \<longrightarrow> st2 ! (?n - Suc j) = argv ! j)
               \<and> (\<forall>i < n_kw. find_arg_name self (kw_name n_args argv i) = Some j
                      \<longrightarrow> st2 ! (?n - Suc j) = argv ! (n_args + 2 * i + 1))
               \<and> (\<not> (j < n_args \<and> j < n_pos_args self)
                    \<and> (\<forall>i < n_kw. find_arg_name self (kw_name n_args argv i) \<noteq> Some j)
                    \<longrightarrow> st2 ! (?n - Suc j) = MP_OBJ_NULL)"
    by blast
  have res: "mp_setup_code_state cs self n_args n_kw argv = after_kw_loop cs self st2"
    unfolding r loop by simp
  have slots: "(st2 ! (?n - Suc j) \<noteq> MP_OBJ_NULL) = supplied self n_args n_kw argv j"
    if j: "j < ?PK" for j
  proof (cases "supplied self n_args n_kw argv j")
    case True
    then consider "j < n_args \<and> j < n_pos_args self"
      | i where "i < n_kw" "find_arg_name self (kw_name n_args argv i) = Some j"
      by (auto simp: supplied_def)
    then have "st2 ! (?n - Suc j) \<noteq> MP_OBJ_NULL"
    proof cases
      case 1
      then have "st2 ! (?n - Suc j) = argv ! j" using inv j by blast
      moreover have "j < n_args + 2 * n_kw" using 1 by simp
      ultimately show ?thesis using nn by simp
    next
      case 2
      then have "st2 ! (?n - Suc j) = argv ! (n_args + 2 * i + 1)" using inv j by blast
      moreover have "n_args + 2 * i + 1 < n_args + 2 * n_kw" using 2(1) by simp
      ultimately show ?thesis using nn by simp
    qed
    then show ?thesis using True by simp
  next
    case False
    then have "\<not> (j < n_args \<and> j < n_pos_args self)"
      and "\<forall>i < n_kw. find_arg_name self (kw_name n_args argv i) \<noteq> Some j"
      by (auto simp: supplied_def)
    then have "st2 ! (?n - Suc j) = MP_OBJ_NULL" using inv j by blast
    then show ?thesis using False by simp
  qed
  show thesis using that[OF res len2 slots] by blast
qed

lemma binder_first_offender:
  assumes argv: "length argv = n_args + 2 * n_kw"
    and arity: "n_args \<le> n_pos_args self \<or> takes_var_args self"
    and frame: "n_pos_args self + n_kwonly_args self + (if takes_var_args self then 1 else 0)
                  + (if takes_kw_args self then 1 else 0) \<le> n_state cs"
    and nonnull: "MP_OBJ_NULL \<notin> set argv"
    and i0: "i0 < n_kw" and off: "offending self n_args argv i0"
    and first: "\<forall>i < i0. \<not> offending self n_args argv i"
  shows "mp_setup_code_state cs self n_args n_kw argv = Inl (kw_error self n_args argv i0)"
proof -
  have slow: "n_kw \<noteq> 0 \<or> has_def_kw_args self" using i0 by simp
  show ?thesis
  proof (rule keyword_path[OF arity slow frame, of argv])
    let ?n = "n_state cs" and ?PK = "n_pos_args self + n_kwonly_args self"
    let ?kwargs = "drop n_args argv"
    fix st vpk
    assume len: "length st = ?n"
      and pos: "\<And>j. j < n_args \<Longrightarrow> j < n_pos_args self \<Longrightarrow> st ! (?n - Suc j) = argv ! j"
      and empty: "\<And>j. n_args \<le> j \<or> n_pos_args self \<le> j \<Longrightarrow> j < ?PK
                    \<Longrightarrow> st ! (?n - Suc j) = MP_OBJ_NULL"
      and dict: "takes_kw_args self \<Longrightarrow>
         vpk = ?n - Suc (?PK + (if takes_var_args self then 1 else 0))
         \<and> vpk < ?n \<and> st ! vpk = Dict []"
      and r: "mp_setup_code_state cs self n_args n_kw argv =
         (case bind_kwargs self ?n vpk ?kwargs [0..<n_kw] st of
            Inl e \<Rightarrow> Inl e
          | Inr st2 \<Rightarrow> after_kw_loop cs self st2)"
    have PK: "?PK \<le> ?n" using frame by simp
    have vpk: "vpk \<noteq> ?n - Suc j" if "takes_kw_args self" "j < ?PK" for j
      using dict[OF that(1)] that frame by (auto split: if_splits)
    have nm: "?kwargs ! (2 * i) = argv ! (n_args + 2 * i)" for i
      using argv by simp
    have vl: "?kwargs ! (2 * i + 1) = argv ! (n_args + 2 * i + 1)" for i
      using argv by (simp add: add.assoc)
    have nn: "argv ! x \<noteq> MP_OBJ_NULL" if "x < n_args + 2 * n_kw" for x
      using nonnull that argv by (metis nth_mem)
    have "bind_kwargs self ?n vpk ?kwargs [0..<n_kw] st = Inl (kw_error self n_args argv i0)"
      by (rule kw_loop_first_offender[OF len PK pos empty vpk nm vl nn i0 off first])
    then show ?thesis
      unfolding r by simp
  qed
qed

text \<open>What the binder does after a loop without offending pair.\<close>

lemma binder_missing_positional:
  assumes argv: "length argv = n_args + 2 * n_kw"
    and arity: "n_args \<le> n_pos_args self \<or> takes_var_args self"
    and slow: "n_kw \<noteq> 0 \<or> has_def_kw_args self"
    and frame: "n_pos_args self + n_kwonly_args self + (if takes_var_args self then 1 else 0)
                  + (if takes_kw_args self then 1 else 0) \<le> n_state cs"
    and nonnull: "MP_OBJ_NULL \<notin> set argv"
    and ok: "\<forall>i < n_kw. \<not> offending self n_args argv i"
    and D: "n_def_args self \<le> n_pos_args self"
    and j: "j < n_pos_args self - n_def_args self" "\<not> supplied self n_args n_kw argv j"
    and above: "\<forall>j'. j < j' \<and> j' < n_pos_args self - n_def_args self
                  \<longrightarrow> supplied self n_args n_kw argv j'"
  shows "mp_setup_code_state cs self n_args n_kw argv = Inl (MissingRequiredPositional j)"
proof (rule binder_no_offender[OF argv arity slow frame nonnull ok])
  fix st2
  assume r: "mp_setup_code_state cs self n_args n_kw argv = after_kw_loop cs self st2"
    and len: "length st2 = n_state cs"
    and slots: "\<And>j. j < n_pos_args self + n_kwonly_args self \<Longrightarrow>
       (st2 ! (n_state cs - Suc j) \<noteq> MP_OBJ_NULL) = supplied self n_args n_kw argv j"
  have Pn: "n_pos_args self \<le> n_state cs" using frame by simp
  have "j < n_pos_args self + n_kwonly_args self" using j(1) by arith
  from slots[OF this] have null: "st2 ! (n_state cs - Suc j) = MP_OBJ_NULL"
    using j(2) by simp
  have ab: "\<forall>j'. j < j' \<and> j' < n_pos_args self - n_def_args self
                  \<longrightarrow> st2 ! (n_state cs - Suc j') \<noteq> MP_OBJ_NULL"
  proof (intro allI impI)
    fix j' assume a: "j < j' \<and> j' < n_pos_args self - n_def_args self"
    then have "j' < n_pos_args self + n_kwonly_args self" by arith
    from slots[OF this] above a show "st2 ! (n_state cs - Suc j') \<noteq> MP_OBJ_NULL" by simp
  qed
  show ?thesis
    unfolding r by (rule after_kw_loop_missing_positional[OF len Pn D j(1) null ab])
qed

lemma binder_missing_keyword:
  assumes argv: "length argv = n_args + 2 * n_kw"
    and arity: "n_args \<le> n_pos_args self \<or> takes_var_args self"
    and slow: "n_kw \<noteq> 0 \<or> has_def_kw_args self"
    and frame: "n_pos_args self + n_kwonly_args self + (if takes_var_args self then 1 else 0)
                  + (if takes_kw_args self then 1 else 0) \<le> n_state cs"
    and nonnull: "MP_OBJ_NULL \<notin> set argv"
    and ok: "\<forall>i < n_kw. \<not> offending self n_args argv i"
    and D: "n_def_args self \<le> n_pos_args self"
    and required: "\<forall>j < n_pos_args self - n_def_args self. supplied self n_args n_kw argv j"
    and k: "k < n_kwonly_args self" "\<not> supplied self n_args n_kw argv (n_pos_args self + k)"
           "kw_default self k = None"
    and before: "\<forall>k' < k. supplied self n_args n_kw argv (n_pos_args self + k')
                            \<or> kw_default self k' \<noteq> None"
  shows "mp_setup_code_state cs self n_args n_kw argv
           = Inl (MissingRequiredKeyword (args self ! (n_pos_args self + k)))"
proof (rule binder_no_offender[OF argv arity slow frame nonnull ok])
  let ?n = "n_state cs" and ?P = "n_pos_args self" and ?K = "n_kwonly_args self"
  fix st2
  assume r: "mp_setup_code_state cs self n_args n_kw argv = after_kw_loop cs self st2"
    and len: "length st2 = ?n"
    and slots: "\<And>j. j < ?P + ?K \<Longrightarrow>
       (st2 ! (?n - Suc j) \<noteq> MP_OBJ_NULL) = supplied self n_args n_kw argv j"
  let ?st3 = "fill_def_pos_args self ?n st2"
  have Pn: "?P \<le> ?n" and PK: "?P + ?K \<le> ?n" using frame by simp_all
  have filled: "\<forall>j < ?P - n_def_args self. st2 ! (?n - Suc j) \<noteq> MP_OBJ_NULL"
  proof (intro allI impI)
    fix j assume a: "j < ?P - n_def_args self"
    then have "j < ?P + ?K" by arith
    from slots[OF this] required a show "st2 ! (?n - Suc j) \<noteq> MP_OBJ_NULL" by simp
  qed
  have pos: "find (\<lambda>d. ?st3 ! d = MP_OBJ_NULL) [?n - ?P + n_def_args self..<?n] = None"
    by (rule mandatory_positional_filled[OF len Pn D filled])
  have st3: "(?st3 ! (?n - 1 - ?P - k') \<noteq> MP_OBJ_NULL) = supplied self n_args n_kw argv (?P + k')"
    if "k' < ?K" for k'
  proof -
    have lt: "?n - Suc (?P + k') < ?n - ?P" using that PK by arith
    have "?st3 ! (?n - Suc (?P + k')) = st2 ! (?n - Suc (?P + k'))"
      by (rule fill_def_pos_args_below[OF lt])
    then show ?thesis using slots[of "?P + k'"] that by simp
  qed
  have 1: "?st3 ! (?n - 1 - ?P - k) = MP_OBJ_NULL" using st3[OF k(1)] k(2) by simp
  have 3: "\<forall>i'\<in>set [0..<k]. ?n - 1 - ?P - i' \<noteq> ?n - 1 - ?P - k"
    using k(1) PK by auto
  have 4: "\<forall>i'\<in>set [0..<k]. ?st3 ! (?n - 1 - ?P - i') \<noteq> MP_OBJ_NULL \<or> kw_default self i' \<noteq> None"
  proof
    fix i' assume "i' \<in> set [0..<k]"
    then have i': "i' < k" by simp
    then have "i' < ?K" using k(1) by simp
    from st3[OF this] before i' show
      "?st3 ! (?n - 1 - ?P - i') \<noteq> MP_OBJ_NULL \<or> kw_default self i' \<noteq> None" by blast
  qed
  have "fill_kwonly_args self ?n [0..<?K] ?st3
          = Inl (MissingRequiredKeyword (args self ! (?P + k)))"
    unfolding upt_split_at[OF k(1)]
    by (rule fill_kwonly_args_first_missing[OF 1 k(3) 3 4])
  then show ?thesis unfolding r using pos by (simp add: after_kw_loop_def)
qed

lemma binder_keyword_path_succeeds:
  assumes argv: "length argv = n_args + 2 * n_kw"
    and arity: "n_args \<le> n_pos_args self \<or> takes_var_args self"
    and slow: "n_kw \<noteq> 0 \<or> has_def_kw_args self"
    and frame: "n_pos_args self + n_kwonly_args self + (if takes_var_args self then 1 else 0)
                  + (if takes_kw_args self then 1 else 0) \<le> n_state cs"
    and nonnull: "MP_OBJ_NULL \<notin> set argv"
    and ok: "\<forall>i < n_kw. \<not> offending self n_args argv i"
    and D: "n_def_args self \<le> n_pos_args self"
    and required: "\<forall>j < n_pos_args self - n_def_args self. supplied self n_args n_kw argv j"
    and kwonly: "\<forall>k < n_kwonly_args self. supplied self n_args n_kw argv (n_pos_args self + k)
                            \<or> kw_default self k \<noteq> None"
  shows "\<exists>cs'. mp_setup_code_state cs self n_args n_kw argv = Inr cs'"
proof (rule binder_no_offender[OF argv arity slow frame nonnull ok])
  let ?n = "n_state cs" and ?P = "n_pos_args self" and ?K = "n_kwonly_args self"
  fix st2
  assume r: "mp_setup_code_state cs self n_args n_kw argv = after_kw_loop cs self st2"
    and len: "length st2 = ?n"
    and slots: "\<And>j. j < ?P + ?K \<Longrightarrow>
       (st2 ! (?n - Suc j) \<noteq> MP_OBJ_NULL) = supplied self n_args n_kw argv j"
  let ?st3 = "fill_def_pos_args self ?n st2"
  have Pn: "?P \<le> ?n" and PK: "?P + ?K \<le> ?n" using frame by simp_all
  have filled: "\<forall>j < ?P - n_def_args self. st2 ! (?n - Suc j) \<noteq> MP_OBJ_NULL"
  proof (intro allI impI)
    fix j assume a: "j < ?P - n_def_args self"
    then have "j < ?P + ?K" by arith
    from slots[OF this] required a show "st2 ! (?n - Suc j) \<noteq> MP_OBJ_NULL" by simp
  qed
  have pos: "find (\<lambda>d. ?st3 ! d = MP_OBJ_NULL) [?n - ?P + n_def_args self..<?n] = None"
    by (rule mandatory_positional_filled[OF len Pn D filled])
  have st3: "(?st3 ! (?n - 1 - ?P - k') \<noteq> MP_OBJ_NULL) = supplied self n_args n_kw argv (?P + k')"
    if "k' < ?K" for k'
  proof -
    have lt: "?n - Suc (?P + k') < ?n - ?P" using that PK by arith
    have "?st3 ! (?n - Suc (?P + k')) = st2 ! (?n - Suc (?P + k'))"
      by (rule fill_def_pos_args_below[OF lt])
    then show ?thesis using slots[of "?P + k'"] that by simp
  qed
  have "\<forall>i\<in>set [0..<?K]. ?st3 ! (?n - 1 - ?P - i) \<noteq> MP_OBJ_NULL \<or> kw_default self i \<noteq> None"
  proof
    fix i assume "i \<in> set [0..<?K]"
    then have i: "i < ?K" by simp
    from st3[OF this] kwonly i show
      "?st3 ! (?n - 1 - ?P - i) \<noteq> MP_OBJ_NULL \<or> kw_default self i \<noteq> None" by blast
  qed
  from fill_kwonly_args_succeeds[OF this] obtain st4 where
    "fill_kwonly_args self ?n [0..<?K] ?st3 = Inr st4" by blast
  then show ?thesis unfolding r using pos by (simp add: after_kw_loop_def)
qed

lemma first_offender:
  assumes "offending self n_args argv i"
  obtains i0 where "i0 \<le> i" "offending self n_args argv i0"
    "\<forall>i' < i0. \<not> offending self n_args argv i'"
  using ex_least_nat_le[of "offending self n_args argv" i] assms by blast

lemma kw_error_named:
  "find_arg_name self (kw_name n_args argv i) = Some j
   \<Longrightarrow> kw_error self n_args argv i = DuplicateArgument (kw_name n_args argv i)"
  by (simp add: kw_error_def)

lemma kw_error_unknown:
  "find_arg_name self (kw_name n_args argv i) = None
   \<Longrightarrow> kw_error self n_args argv i = UnexpectedKeyword"
  by (simp add: kw_error_def)

lemma greatest_below:
  fixes Q :: "nat \<Rightarrow> bool"
  shows "j < b \<Longrightarrow> Q j \<Longrightarrow> \<exists>jm < b. Q jm \<and> (\<forall>j'. jm < j' \<and> j' < b \<longrightarrow> \<not> Q j')"
proof (induction b)
  case 0
  then show ?case by simp
next
  case (Suc b)
  show ?case
  proof (cases "Q b")
    case True
    then show ?thesis by (intro exI[of _ b]) auto
  next
    case False
    then have "j < b" using Suc.prems by (cases "j = b") auto
    from Suc.IH[OF this Suc.prems(2)] obtain jm where
      jm: "jm < b" "Q jm" "\<forall>j'. jm < j' \<and> j' < b \<longrightarrow> \<not> Q j'" by blast
    have "\<forall>j'. jm < j' \<and> j' < Suc b \<longrightarrow> \<not> Q j'"
      using jm(3) False by (auto simp: less_Suc_eq)
    then show ?thesis using jm(1,2) by (intro exI[of _ jm]) auto
  qed
qed

lemma not_supplied_unnamed:
  assumes "\<not> supplied self n_args n_kw argv j" and "length argv = n_args + 2 * n_kw"
  shows "\<forall>i\<in>set [0..<n_kw].
           find_arg_name self (MP_OBJ_QSTR_VALUE (drop n_args argv ! (2 * i))) \<noteq> Some j"
  using assms by (auto simp: supplied_def kw_name_def)

lemma least_unsatisfied:
  assumes unsupplied: "\<not> supplied self n_args n_kw argv (n_pos_args self + k)"
    and nodefault: "kw_default self k = None"
  obtains k' where "k' \<le> k" "\<not> supplied self n_args n_kw argv (n_pos_args self + k')"
    "kw_default self k' = None"
    "\<forall>k'' < k'. supplied self n_args n_kw argv (n_pos_args self + k'') \<or> kw_default self k'' \<noteq> None"
proof -
  define Q where "Q = (\<lambda>k'. \<not> supplied self n_args n_kw argv (n_pos_args self + k') \<and> kw_default self k' = None)"
  have "Q k" using unsupplied nodefault by (simp add: Q_def)
  from ex_least_nat_le[of Q k, OF this] obtain k' where k': "k' \<le> k" "\<forall>i<k'. \<not> Q i" "Q k'"
    by blast
  have a: "\<not> supplied self n_args n_kw argv (n_pos_args self + k')" "kw_default self k' = None"
    using k'(3) by (simp_all add: Q_def)
  have b: "supplied self n_args n_kw argv (n_pos_args self + k'') \<or> kw_default self k'' \<noteq> None"
    if "k'' < k'" for k''
  proof -
    have "\<not> Q k''" using k'(2) that by simp
    then show ?thesis unfolding Q_def by (rule de_Morgan_conj[THEN iffD1, THEN disj_forward]) simp_all
  qed
  show thesis
    by (rule that[OF k'(1) a]) (use b in simp)
qed

text \<open>On the keyword path the binder succeeds exactly when nothing is wrong with the call.\<close>

lemma binder_keyword_path_success_iff:
  assumes argv: "length argv = n_args + 2 * n_kw"
    and arity: "n_args \<le> n_pos_args self \<or> takes_var_args self"
    and slow: "n_kw \<noteq> 0 \<or> has_def_kw_args self"
    and frame: "n_pos_args self + n_kwonly_args self + (if takes_var_args self then 1 else 0)
                  + (if takes_kw_args self then 1 else 0) \<le> n_state cs"
    and nonnull: "MP_OBJ_NULL \<notin> set argv"
    and D: "n_def_args self \<le> n_pos_args self"
  shows "(\<exists>cs'. mp_setup_code_state cs self n_args n_kw argv = Inr cs')
         \<longleftrightarrow> (\<forall>i < n_kw. \<not> offending self n_args argv i)
           \<and> (\<forall>j < n_pos_args self - n_def_args self. supplied self n_args n_kw argv j)
           \<and> (\<forall>k < n_kwonly_args self. supplied self n_args n_kw argv (n_pos_args self + k)
                                          \<or> kw_default self k \<noteq> None)"
proof
  let ?r = "mp_setup_code_state cs self n_args n_kw argv"
  let ?P = "n_pos_args self" and ?D = "n_def_args self"
  assume "\<exists>cs'. ?r = Inr cs'"
  then obtain cs' where ok: "?r = Inr cs'" by blast
  have no_off: "\<forall>i < n_kw. \<not> offending self n_args argv i"
  proof (intro allI impI notI)
    fix i assume i: "i < n_kw" and off: "offending self n_args argv i"
    from first_offender[OF off] obtain i0 where i0: "i0 \<le> i" "offending self n_args argv i0"
      "\<forall>i' < i0. \<not> offending self n_args argv i'"
      by blast
    have "i0 < n_kw" using i0(1) i by simp
    from binder_first_offender[OF argv arity frame nonnull this i0(2,3)] ok
    show False by simp
  qed
  have req: "\<forall>j < ?P - ?D. supplied self n_args n_kw argv j"
  proof (intro allI impI, rule ccontr)
    fix j assume j: "j < ?P - ?D" and ns: "\<not> supplied self n_args n_kw argv j"
    from greatest_below[of j "?P - ?D" "\<lambda>j. \<not> supplied self n_args n_kw argv j", OF j ns]
    obtain jm where jm: "jm < ?P - ?D" "\<not> supplied self n_args n_kw argv jm"
      "\<forall>j'. jm < j' \<and> j' < ?P - ?D \<longrightarrow> \<not> \<not> supplied self n_args n_kw argv j'"
      by blast
    have above: "\<forall>j'. jm < j' \<and> j' < ?P - ?D \<longrightarrow> supplied self n_args n_kw argv j'"
      using jm(3) by simp
    from binder_missing_positional[OF argv arity slow frame nonnull no_off D jm(1,2) above] ok
    show False by simp
  qed
  have kwonly: "\<forall>k < n_kwonly_args self. supplied self n_args n_kw argv (?P + k)
                                          \<or> kw_default self k \<noteq> None"
  proof (intro allI impI, rule ccontr)
    fix k assume k: "k < n_kwonly_args self"
      and n: "\<not> (supplied self n_args n_kw argv (?P + k) \<or> kw_default self k \<noteq> None)"
    have u: "\<not> supplied self n_args n_kw argv (?P + k)" and d: "kw_default self k = None"
      using n by simp_all
    show False
    proof (rule least_unsatisfied[OF u d])
      fix k'
      assume k': "k' \<le> k" "\<not> supplied self n_args n_kw argv (?P + k')" "kw_default self k' = None"
        "\<forall>k'' < k'. supplied self n_args n_kw argv (?P + k'') \<or> kw_default self k'' \<noteq> None"
      have "k' < n_kwonly_args self" using k'(1) k by simp
      from binder_missing_keyword[OF argv arity slow frame nonnull no_off D req this k'(2,3,4)] ok
      show False by simp
    qed
  qed
  show "(\<forall>i < n_kw. \<not> offending self n_args argv i)
           \<and> (\<forall>j < ?P - ?D. supplied self n_args n_kw argv j)
           \<and> (\<forall>k < n_kwonly_args self. supplied self n_args n_kw argv (?P + k)
                                          \<or> kw_default self k \<noteq> None)"
    by (intro conjI no_off req kwonly)
next
  assume a: "(\<forall>i < n_kw. \<not> offending self n_args argv i)
           \<and> (\<forall>j < n_pos_args self - n_def_args self. supplied self n_args n_kw argv j)
           \<and> (\<forall>k < n_kwonly_args self. supplied self n_args n_kw argv (n_pos_args self + k)
                                          \<or> kw_default self k \<noteq> None)"
  show "\<exists>cs'. mp_setup_code_state cs self n_args n_kw argv = Inr cs'"
    by (rule binder_keyword_path_succeeds[OF argv arity slow frame nonnull
               conjunct1[OF a] D conjunct1[OF conjunct2[OF a]] conjunct2[OF conjunct2[OF a]]])
qed

section \<open>Claims about positional arguments\<close>

text \<open>
  C2. On a callable without the variadic-positional flag, a call with more positional
  arguments than declared positional parameters fails with the arity error carrying
  \<open>expected = n_pos_args\<close> and \<open>given = n_args\<close>, whatever keyword arguments, frame and
  defaults come with it: the check is the first thing the binder does.
\<close>

theorem excess_positional_arity_mismatch:
  assumes "n_args > n_pos_args self" and "\<not> takes_var_args self"
  shows "mp_setup_code_state code_state self n_args n_kw argv
           = Inl (ArityMismatch (n_pos_args self) n_args)"
  using assms
  by (simp add: mp_setup_code_state_def check_pos_args_def fun_pos_args_mismatch_def Let_def)

theorem excess_positional_arity_mismatch_witness:
  "n_pos_args (mp_obj_new_fun_bc mp_const_none 0 [1] 1 0 MP_OBJ_NULL MP_OBJ_NULL []) < 2
   \<and> \<not> takes_var_args (mp_obj_new_fun_bc mp_const_none 0 [1] 1 0 MP_OBJ_NULL MP_OBJ_NULL [])
   \<and> mp_setup_code_state
         \<lparr> code_info = [], ip = [0], sp = 0, exc_sp = 0, n_state = 1, state = [] \<rparr>
         (mp_obj_new_fun_bc mp_const_none 0 [1] 1 0 MP_OBJ_NULL MP_OBJ_NULL [])
         2 1 [MP_OBJ_NEW_SMALL_INT 7, MP_OBJ_NEW_SMALL_INT 8, MP_OBJ_NEW_QSTR 5, mp_const_true]
       = Inl (ArityMismatch 1 2)"
proof -
  let ?f = "mp_obj_new_fun_bc mp_const_none 0 [1] 1 0 MP_OBJ_NULL MP_OBJ_NULL []"
  have p: "n_pos_args ?f = 1" and v: "\<not> takes_var_args ?f"
    by (simp_all add: mp_obj_new_fun_bc_def MP_SCOPE_FLAG_VARARGS_def)
  have lt: "n_pos_args ?f < 2" using p by simp
  show ?thesis
    using excess_positional_arity_mismatch [OF lt v] p v lt by simp
qed

lemma fast_path_binding:
  assumes nokw: "\<not> has_def_kw_args self"
    and D: "n_def_args self \<le> n_pos_args self"
    and ge: "n_pos_args self - n_def_args self \<le> n_args" and le: "n_args \<le> n_pos_args self"
    and K: "n_kwonly_args self = 0"
    and frame: "n_pos_args self + (if takes_var_args self then 1 else 0)
                 + (if takes_kw_args self then 1 else 0) \<le> n_state cs"
    and prelude: "unat (hd (ip cs)) \<le> length (tl (ip cs))"
                 "\<forall>l \<in> set (closed_over (ip cs)). l < n_state cs"
  shows "\<exists>cs'. mp_setup_code_state cs self n_args 0 argv = Inr cs'
               \<and> (\<forall>j < n_args. state cs' ! (n_state cs - 1 - j) = boxed (ip cs) j (argv ! j))
               \<and> (\<forall>j. n_args \<le> j \<and> j < n_pos_args self \<longrightarrow>
                     state cs' ! (n_state cs - 1 - j)
                       = boxed (ip cs) j
                           (extra_args self ! (j - (n_pos_args self - n_def_args self))))"
proof -
  let ?n = "n_state cs" and ?P = "n_pos_args self" and ?D = "n_def_args self"
  define vpk0 where "vpk0 = ?n - 1 - ?P"
  define st1 where "st1 = (if takes_var_args self
              then (replicate ?n MP_OBJ_NULL)[vpk0 := mp_const_empty_tuple]
              else replicate ?n MP_OBJ_NULL)"
  define vpk1 where "vpk1 = (if takes_var_args self then vpk0 - 1 else vpk0)"
  define g where "g = (\<lambda>i. extra_args self ! (i - (?P - ?D)))"
  define st1' where "st1' = fold (\<lambda>i s. s[?n - Suc i := g i]) [n_args..<?P] st1"
  define st2 where "st2 = copy_pos_args ?n n_args argv st1'"
  define st3 where "st3 = (if takes_kw_args self then st2[vpk1 := mp_obj_new_dict 0] else st2)"
  have Pn: "?P \<le> ?n" using frame by simp
  have len1: "length st1 = ?n" by (simp add: st1_def)
  have len1': "length st1' = ?n" using len1 by (simp add: st1'_def fold_upd_length)
  have len2: "length st2 = ?n" using len1' by (simp add: st2_def copy_pos_args_length)
  have len3: "length st3 = ?n" using len2 by (simp add: st3_def)
  have pos: "check_pos_args self ?n (?n - 1 - ?P - n_kwonly_args self) n_args 0 argv
               (replicate ?n MP_OBJ_NULL) = Inr (st1', vpk1, n_args)"
    using le ge nokw K
    by (simp add: check_pos_args_def st1'_def st1_def vpk1_def vpk0_def g_def)
  have kw: "check_kw_args self ?n vpk1 0 (drop n_args argv) st2 = Inr st3"
    using nokw K by (simp add: check_kw_args_def st3_def)
  define cs' where "cs' = cs\<lparr> code_info := bytecode self, sp := -1, exc_sp := -1,
                  state := snd (closure_prelude ?n (unat (hd (ip cs))) (tl (ip cs)) st3),
                  ip := fst (closure_prelude ?n (unat (hd (ip cs))) (tl (ip cs)) st3) \<rparr>"
  have r: "mp_setup_code_state cs self n_args 0 argv = Inr cs'"
    unfolding mp_setup_code_state_unfold pos cs'_def using kw by (simp add: st2_def)
  have s1': "st1' ! (?n - Suc j) = g j" if "n_args \<le> j" "j < ?P" for j
    unfolding st1'_def using fold_upd_nth[OF len1 Pn, of j g n_args] that Pn by simp
  have s2: "st2 ! (?n - Suc j) = (if j < n_args then argv ! j else g j)" if "j < ?P" for j
    unfolding st2_def
    using copy_pos_args_nth[OF len1', of n_args j argv] s1'[OF _ that] that Pn le by simp
  have ne: "vpk1 \<noteq> ?n - Suc j" if "takes_kw_args self" "j < ?P" for j
    using that frame by (auto simp: vpk1_def vpk0_def split: if_splits)
  have s3: "st3 ! (?n - Suc j) = (if j < n_args then argv ! j else g j)" if "j < ?P" for j
    using s2[OF that] ne[OF _ that] by (auto simp: st3_def)
  have st': "state cs' = snd (closure_prelude ?n (unat (hd (ip cs))) (tl (ip cs)) st3)"
    by (simp add: cs'_def)
  have fin: "state cs' ! (?n - Suc j) = boxed (ip cs) j (if j < n_args then argv ! j else g j)"
    if "j < ?P" for j
    unfolding st' using prelude_state_nth[OF prelude _ len3, of j] s3[OF that] that Pn by simp
  have "\<forall>j < n_args. state cs' ! (?n - 1 - j) = boxed (ip cs) j (argv ! j)"
    using fin le by simp
  moreover have "\<forall>j. n_args \<le> j \<and> j < ?P \<longrightarrow>
      state cs' ! (?n - 1 - j) = boxed (ip cs) j (g j)"
    using fin by simp
  ultimately show "\<exists>cs'. mp_setup_code_state cs self n_args 0 argv = Inr cs'
               \<and> (\<forall>j < n_args. state cs' ! (n_state cs - 1 - j) = boxed (ip cs) j (argv ! j))
               \<and> (\<forall>j. n_args \<le> j \<and> j < n_pos_args self \<longrightarrow>
                     state cs' ! (n_state cs - 1 - j)
                       = boxed (ip cs) j
                           (extra_args self ! (j - (n_pos_args self - n_def_args self))))"
    using r unfolding g_def by blast
qed

lemma fast_path_too_few:
  assumes nokw: "\<not> has_def_kw_args self"
    and few: "n_args < n_pos_args self - n_def_args self"
  shows "mp_setup_code_state cs self n_args 0 argv
           = Inl (ArityMismatch (n_pos_args self - n_def_args self) n_args)"
proof -
  from few have "\<not> n_pos_args self < n_args" and "\<not> n_pos_args self - n_def_args self \<le> n_args"
    by arith+
  then have "check_pos_args self (n_state cs) (n_state cs - 1 - n_pos_args self - n_kwonly_args self)
               n_args 0 argv (replicate (n_state cs) MP_OBJ_NULL)
             = Inl (ArityMismatch (n_pos_args self - n_def_args self) n_args)"
    using nokw
    by (simp add: check_pos_args_def fun_pos_args_mismatch_def case_prod_beta)
  then show ?thesis
    unfolding mp_setup_code_state_unfold by simp
qed

text \<open>
  C1, amended. Take a callable with \<open>P\<close> positional parameters of which the trailing
  \<open>D\<close> have defaults, no default-keyword mapping, and a call with \<open>k\<close> positional
  arguments and no keywords. If \<open>k < P - D\<close> the binder fails with the arity error
  carrying \<open>expected = P - D\<close> and \<open>given = k\<close>. If \<open>P - D \<le> k \<le> P\<close> and the callable
  has no keyword-only parameter, the binder succeeds on every frame with room for the
  declared slots: slot \<open>j < k\<close> holds argument \<open>j\<close>, slot \<open>k \<le> j < P\<close> holds default
  \<open>j - (P - D)\<close>, the right-aligned one. A slot that the closure prelude lists holds its
  value inside a cell, which \<open>boxed\<close> writes out. The claim as stated also promises
  success for a callable with keyword-only parameters; there the call fails, as the
  counterexample shows.
\<close>

theorem positional_defaults:
  assumes nokw: "\<not> has_def_kw_args self"
    and D: "n_def_args self \<le> n_pos_args self"
  shows "(n_args < n_pos_args self - n_def_args self \<longrightarrow>
            mp_setup_code_state cs self n_args 0 argv
              = Inl (ArityMismatch (n_pos_args self - n_def_args self) n_args))
       \<and> (n_pos_args self - n_def_args self \<le> n_args \<and> n_args \<le> n_pos_args self
            \<and> n_kwonly_args self = 0
            \<and> n_pos_args self + (if takes_var_args self then 1 else 0)
                 + (if takes_kw_args self then 1 else 0) \<le> n_state cs
            \<and> unat (hd (ip cs)) \<le> length (tl (ip cs))
            \<and> (\<forall>l \<in> set (closed_over (ip cs)). l < n_state cs) \<longrightarrow>
            (\<exists>cs'. mp_setup_code_state cs self n_args 0 argv = Inr cs'
               \<and> (\<forall>j < n_args. state cs' ! (n_state cs - 1 - j) = boxed (ip cs) j (argv ! j))
               \<and> (\<forall>j. n_args \<le> j \<and> j < n_pos_args self \<longrightarrow>
                     state cs' ! (n_state cs - 1 - j)
                       = boxed (ip cs) j
                           (extra_args self ! (j - (n_pos_args self - n_def_args self))))))"
  using fast_path_too_few [OF nokw] fast_path_binding [OF nokw D]
  by blast

theorem positional_defaults_witness:
  "\<exists>cs'. mp_setup_code_state
            \<lparr> code_info = [], ip = [0], sp = 0, exc_sp = 0, n_state = 3, state = [] \<rparr>
            (mp_obj_new_fun_bc mp_const_none 0 [1, 2, 3] 3 0
               (Tuple [MP_OBJ_NEW_SMALL_INT 10]) MP_OBJ_NULL [])
            2 0 [MP_OBJ_NEW_SMALL_INT 1, MP_OBJ_NEW_SMALL_INT 2] = Inr cs'
         \<and> state cs' ! 2 = MP_OBJ_NEW_SMALL_INT 1
         \<and> state cs' ! 1 = MP_OBJ_NEW_SMALL_INT 2
         \<and> state cs' ! 0 = MP_OBJ_NEW_SMALL_INT 10"
proof -
  let ?cs = "\<lparr> code_info = [], ip = [0], sp = 0, exc_sp = 0, n_state = 3, state = [] \<rparr>"
  let ?f = "mp_obj_new_fun_bc mp_const_none 0 [1, 2, 3] 3 0
               (Tuple [MP_OBJ_NEW_SMALL_INT 10]) MP_OBJ_NULL []"
  let ?argv = "[MP_OBJ_NEW_SMALL_INT 1, MP_OBJ_NEW_SMALL_INT 2]"
  have f: "n_pos_args ?f = 3" "n_def_args ?f = 1" "n_kwonly_args ?f = 0"
    "\<not> has_def_kw_args ?f" "\<not> takes_var_args ?f" "\<not> takes_kw_args ?f"
    "extra_args ?f = [MP_OBJ_NEW_SMALL_INT 10]"
    by (simp_all add: mp_obj_new_fun_bc_def MP_SCOPE_FLAG_VARARGS_def
                      MP_SCOPE_FLAG_VARKEYWORDS_def)
  have box: "boxed [0] j v = v" for j v
    by (simp add: boxed_def closed_over_def)
  have hyp: "n_pos_args ?f - n_def_args ?f \<le> 2 \<and> 2 \<le> n_pos_args ?f
            \<and> n_kwonly_args ?f = 0
            \<and> n_pos_args ?f + (if takes_var_args ?f then 1 else 0)
                 + (if takes_kw_args ?f then 1 else 0) \<le> n_state ?cs
            \<and> unat (hd (ip ?cs)) \<le> length (tl (ip ?cs))
            \<and> (\<forall>l \<in> set (closed_over (ip ?cs)). l < n_state ?cs)"
    using f by (simp add: closed_over_def)
  from positional_defaults [of ?f 2 ?cs ?argv] f hyp
  obtain cs' where r: "mp_setup_code_state ?cs ?f 2 0 ?argv = Inr cs'"
    and a: "\<forall>j < 2. state cs' ! (n_state ?cs - 1 - j) = boxed (ip ?cs) j (?argv ! j)"
    and d: "\<forall>j. 2 \<le> j \<and> j < n_pos_args ?f \<longrightarrow>
              state cs' ! (n_state ?cs - 1 - j)
                = boxed (ip ?cs) j (extra_args ?f ! (j - (n_pos_args ?f - n_def_args ?f)))"
    by auto
  from a have "state cs' ! 2 = MP_OBJ_NEW_SMALL_INT 1"
    using spec [OF a, of 0] by (simp add: box)
  moreover from a have "state cs' ! 1 = MP_OBJ_NEW_SMALL_INT 2"
    using spec [OF a, of 1] by (simp add: box)
  moreover have "state cs' ! 0 = MP_OBJ_NEW_SMALL_INT 10"
    using spec [OF d, of 2] f by (simp add: box)
  ultimately show ?thesis using r by blast
qed

text \<open>
  The claim C1 as stated fails for a callable with a keyword-only parameter: \<open>P = 1\<close>,
  \<open>D = 0\<close>, one keyword-only parameter, one positional argument, no keywords and no
  default-keyword mapping, yet the binder fails.
\<close>

theorem positional_defaults_counterexample:
  "mp_setup_code_state
     \<lparr> code_info = [], ip = [0], sp = 0, exc_sp = 0, n_state = 2, state = [] \<rparr>
     (mp_obj_new_fun_bc mp_const_none 0 [1, 2] 1 1 MP_OBJ_NULL MP_OBJ_NULL [])
     1 0 [MP_OBJ_NEW_SMALL_INT 1]
   = Inl MissingKeywordOnly"
  by (simp add: mp_setup_code_state_unfold check_pos_args_def check_kw_args_def
                mp_obj_new_fun_bc_def MP_SCOPE_FLAG_VARARGS_def MP_SCOPE_FLAG_VARKEYWORDS_def)

text \<open>
  C3. On a callable with the variadic-positional flag, a call with more positional
  arguments than positional parameters never fails with the arity error; whenever it
  succeeds, the variadic slot (local \<open>n_pos_args + n_kwonly_args\<close>) holds the tuple of
  exactly the excess arguments \<open>argv[n_pos_args .. n_args - 1]\<close> in order and the first
  \<open>n_pos_args\<close> arguments are in their parameters' slots; and it does succeed when there
  are no keywords, no default-keyword mapping and no keyword-only parameters. The
  arguments are objects (never the null pointer, which marks an empty slot), \<open>argv\<close> is
  the array of \<open>n_args\<close> arguments and \<open>n_kw\<close> pairs, and the frame has room for the
  declared slots. A slot that the closure prelude lists holds its value inside a cell.
\<close>

theorem variadic_positional_excess:
  assumes var: "takes_var_args self"
    and excess: "n_args > n_pos_args self"
    and argv: "length argv = n_args + 2 * n_kw"
    and nonnull: "\<forall>j < n_pos_args self. argv ! j \<noteq> MP_OBJ_NULL"
    and frame: "n_pos_args self + n_kwonly_args self + 1 + (if takes_kw_args self then 1 else 0)
                  \<le> n_state cs"
    and prelude: "unat (hd (ip cs)) \<le> length (tl (ip cs))"
                 "\<forall>l \<in> set (closed_over (ip cs)). l < n_state cs"
    and defaults: "n_def_args self \<le> n_pos_args self"
  shows "(\<forall>expected given. mp_setup_code_state cs self n_args n_kw argv
                              \<noteq> Inl (ArityMismatch expected given))
       \<and> (\<forall>cs'. mp_setup_code_state cs self n_args n_kw argv = Inr cs' \<longrightarrow>
             state cs' ! (n_state cs - 1 - (n_pos_args self + n_kwonly_args self))
               = boxed (ip cs) (n_pos_args self + n_kwonly_args self)
                   (Tuple (drop (n_pos_args self) (take n_args argv)))
             \<and> (\<forall>j < n_pos_args self.
                   state cs' ! (n_state cs - 1 - j) = boxed (ip cs) j (argv ! j)))
       \<and> (n_kw = 0 \<and> \<not> has_def_kw_args self \<and> n_kwonly_args self = 0 \<longrightarrow>
             (\<exists>cs'. mp_setup_code_state cs self n_args n_kw argv = Inr cs'))"
proof -
  let ?n = "n_state cs" and ?P = "n_pos_args self" and ?K = "n_kwonly_args self"
  let ?tup = "Tuple (drop ?P (take n_args argv))"
  let ?vpk = "?n - Suc (?P + ?K)"
  let ?st1 = "(replicate ?n MP_OBJ_NULL)[?vpk := ?tup]"
  let ?st2 = "copy_pos_args ?n ?P argv ?st1"
  let ?r2 = "check_kw_args self ?n (?vpk - 1) n_kw (drop n_args argv) ?st2"
  have PK: "?P + ?K < ?n" using frame by simp
  have tup: "mp_obj_new_tuple (n_args - ?P) (drop ?P argv) = ?tup"
    using excess argv by (simp add: mp_obj_new_tuple_def drop_take)
  have pos: "check_pos_args self ?n (?n - 1 - ?P - ?K) n_args n_kw argv (replicate ?n MP_OBJ_NULL)
               = Inr (?st1, ?vpk - 1, ?P)"
    using var excess tup by (simp add: check_pos_args_def)
  have len1: "length ?st1 = ?n" by simp
  have len2: "length ?st2 = ?n" by (simp add: copy_pos_args_length)
  have slot_j: "?st2 ! (?n - Suc j) = argv ! j" if "j < ?P" for j
    using copy_pos_args_nth[OF len1, of ?P j argv] that PK by simp
  have slot_v: "?st2 ! ?vpk = ?tup"
    using copy_pos_args_nth[OF len1, of ?P "?P + ?K" argv] PK by simp
  have ne_v: "?vpk \<noteq> ?vpk - 1" if "takes_kw_args self"
    using that frame by simp
  have ne_j: "?n - Suc j \<noteq> ?vpk - 1" if "takes_kw_args self" "j < ?P" for j
    using that frame by simp
  have unfold: "mp_setup_code_state cs self n_args n_kw argv =
     (case ?r2 of Inl e \<Rightarrow> Inl e
      | Inr st3 \<Rightarrow>
          Inr (cs\<lparr> code_info := bytecode self, sp := -1, exc_sp := -1,
                   state := snd (closure_prelude ?n (unat (hd (ip cs))) (tl (ip cs)) st3),
                   ip := fst (closure_prelude ?n (unat (hd (ip cs))) (tl (ip cs)) st3) \<rparr>))"
    unfolding mp_setup_code_state_unfold pos by simp
  have a: "mp_setup_code_state cs self n_args n_kw argv \<noteq> Inl (ArityMismatch expected given)"
    for expected given
  proof (cases ?r2)
    case (Inl e)
    from check_kw_args_error[OF Inl] Inl show ?thesis unfolding unfold by auto
  next
    case (Inr st3)
    then show ?thesis unfolding unfold by simp
  qed
  have b: "state cs' ! (?n - 1 - (?P + ?K)) = boxed (ip cs) (?P + ?K) ?tup
           \<and> (\<forall>j < ?P. state cs' ! (?n - 1 - j) = boxed (ip cs) j (argv ! j))"
    if r: "mp_setup_code_state cs self n_args n_kw argv = Inr cs'" for cs'
  proof -
    from r obtain st3 where r2: "?r2 = Inr st3"
      and cs': "state cs' = snd (closure_prelude ?n (unat (hd (ip cs))) (tl (ip cs)) st3)"
      unfolding unfold by (auto split: sum.splits)
    have len3: "length st3 = ?n" using check_kw_args_length[OF r2] len2 by simp
    have v3: "st3 ! ?vpk = ?tup"
      using check_kw_args_keeps_filled[OF r2, of ?vpk] slot_v ne_v by simp
    have j3: "st3 ! (?n - Suc j) = argv ! j" if "j < ?P" for j
      using check_kw_args_keeps_filled[OF r2, of "?n - Suc j"] slot_j[OF that] ne_j[OF _ that]
        nonnull that by simp
    have "state cs' ! (?n - Suc (?P + ?K)) = boxed (ip cs) (?P + ?K) ?tup"
      unfolding cs' using prelude_state_nth[OF prelude PK len3] v3 by simp
    moreover have "state cs' ! (?n - Suc j) = boxed (ip cs) j (argv ! j)" if "j < ?P" for j
      unfolding cs' using prelude_state_nth[OF prelude _ len3, of j] j3[OF that] that PK by simp
    ultimately show ?thesis by simp
  qed
  have c: "\<exists>cs'. mp_setup_code_state cs self n_args n_kw argv = Inr cs'"
    if "n_kw = 0 \<and> \<not> has_def_kw_args self \<and> n_kwonly_args self = 0"
    unfolding unfold using that by (simp add: check_kw_args_def)
  from a b c show ?thesis by blast
qed

theorem variadic_positional_excess_witness:
  "\<exists>cs'. mp_setup_code_state
            \<lparr> code_info = [], ip = [0], sp = 0, exc_sp = 0, n_state = 2, state = [] \<rparr>
            (mp_obj_new_fun_bc mp_const_none MP_SCOPE_FLAG_VARARGS [1] 1 0
               MP_OBJ_NULL MP_OBJ_NULL [])
            3 0 [MP_OBJ_NEW_SMALL_INT 1, MP_OBJ_NEW_SMALL_INT 2, MP_OBJ_NEW_SMALL_INT 3] = Inr cs'
         \<and> state cs' ! 1 = MP_OBJ_NEW_SMALL_INT 1
         \<and> state cs' ! 0 = Tuple [MP_OBJ_NEW_SMALL_INT 2, MP_OBJ_NEW_SMALL_INT 3]"
proof -
  let ?cs = "\<lparr> code_info = [], ip = [0], sp = 0, exc_sp = 0, n_state = 2, state = [] \<rparr>"
  let ?f = "mp_obj_new_fun_bc mp_const_none MP_SCOPE_FLAG_VARARGS [1] 1 0
               MP_OBJ_NULL MP_OBJ_NULL []"
  let ?argv = "[MP_OBJ_NEW_SMALL_INT 1, MP_OBJ_NEW_SMALL_INT 2, MP_OBJ_NEW_SMALL_INT 3]"
  have f: "n_pos_args ?f = 1" "n_kwonly_args ?f = 0"
    "\<not> has_def_kw_args ?f" "takes_var_args ?f" "\<not> takes_kw_args ?f"
    by (simp_all add: mp_obj_new_fun_bc_def MP_SCOPE_FLAG_VARARGS_def
                      MP_SCOPE_FLAG_VARKEYWORDS_def)
  have box: "boxed [0] j v = v" for j v
    by (simp add: boxed_def closed_over_def)
  have h1: "n_pos_args ?f < 3" and h2: "length ?argv = 3 + 2 * 0"
    and h3: "\<forall>j < n_pos_args ?f. ?argv ! j \<noteq> MP_OBJ_NULL"
    and h4: "n_pos_args ?f + n_kwonly_args ?f + 1 + (if takes_kw_args ?f then 1 else 0)
               \<le> n_state ?cs"
    and h5: "unat (hd (ip ?cs)) \<le> length (tl (ip ?cs))"
    and h6: "\<forall>l \<in> set (closed_over (ip ?cs)). l < n_state ?cs"
    using f by (simp_all add: closed_over_def)
  have h7: "n_def_args ?f \<le> n_pos_args ?f"
    by (simp add: mp_obj_new_fun_bc_def)
  note main = variadic_positional_excess [OF f(4) h1 h2 h3 h4 h5 h6 h7]
  from main f obtain cs' where r: "mp_setup_code_state ?cs ?f 3 0 ?argv = Inr cs'"
    by auto
  from main r have
    "state cs' ! (n_state ?cs - 1 - (n_pos_args ?f + n_kwonly_args ?f))
       = boxed (ip ?cs) (n_pos_args ?f + n_kwonly_args ?f)
           (Tuple (drop (n_pos_args ?f) (take 3 ?argv)))"
    and "\<forall>j < n_pos_args ?f. state cs' ! (n_state ?cs - 1 - j) = boxed (ip ?cs) j (?argv ! j)"
    by blast+
  then have "state cs' ! 0 = Tuple [MP_OBJ_NEW_SMALL_INT 2, MP_OBJ_NEW_SMALL_INT 3]"
    and "state cs' ! 1 = MP_OBJ_NEW_SMALL_INT 1"
    using f by (simp_all add: box)
  then show ?thesis using r by blast
qed

section \<open>The concrete scenario of the spec\<close>

text \<open>
  C4. The callable is built by \<^verbatim>\<open>mp_obj_new_fun_bc\<close> with the positional parameters
  \<open>a\<close>, \<open>b\<close>, \<open>c\<close> (three different names), the default tuple \<open>(10)\<close>, no keyword
  defaults and no scope flag; the frame has at least the three slots and the prelude
  boxes nothing.
  \<^item> Called with \<open>[1, 2]\<close> the binder succeeds with \<open>a = 1\<close>, \<open>b = 2\<close>, \<open>c = 10\<close>.
  \<^item> Called with \<open>[1]\<close> and the keyword \<open>c = 5\<close>, the positional copy and the keyword
    loop leave \<open>a = 1\<close>, \<open>c = 5\<close> and \<open>b\<close> empty, filling the defaults leaves
    \<open>c = 5\<close> (the default 10 is not used), and the binder then fails with "missing
    required positional argument #1", which is \<open>b\<close>.
  \<^item> Called with \<open>[1, 2, 3, 4]\<close> the binder fails with the arity error, expected 3,
    given 4.
\<close>

theorem scenario_abc:
  fixes a b c :: qstr and cs :: mp_code_state and g :: mp_obj_t and code :: "byte list"
  defines "f \<equiv> mp_obj_new_fun_bc g 0 [a, b, c] 3 0 (Tuple [MP_OBJ_NEW_SMALL_INT 10]) MP_OBJ_NULL code"
    and "n \<equiv> n_state cs"
  assumes names: "distinct [a, b, c]"
    and frame: "3 \<le> n_state cs"
    and prelude: "hd (ip cs) = 0"
  shows "(\<exists>cs'. mp_setup_code_state cs f 2 0 [MP_OBJ_NEW_SMALL_INT 1, MP_OBJ_NEW_SMALL_INT 2] = Inr cs'
            \<and> state cs' ! (n - 1) = MP_OBJ_NEW_SMALL_INT 1
            \<and> state cs' ! (n - 2) = MP_OBJ_NEW_SMALL_INT 2
            \<and> state cs' ! (n - 3) = MP_OBJ_NEW_SMALL_INT 10)
       \<and> (\<exists>st. bind_kwargs f n (n - 1 - 3 - 0) [MP_OBJ_NEW_QSTR c, MP_OBJ_NEW_SMALL_INT 5] [0..<1]
                  (copy_pos_args n 1 [MP_OBJ_NEW_SMALL_INT 1, MP_OBJ_NEW_QSTR c, MP_OBJ_NEW_SMALL_INT 5]
                     (replicate n MP_OBJ_NULL)) = Inr st
            \<and> st ! (n - 1) = MP_OBJ_NEW_SMALL_INT 1
            \<and> st ! (n - 2) = MP_OBJ_NULL
            \<and> st ! (n - 3) = MP_OBJ_NEW_SMALL_INT 5
            \<and> fill_def_pos_args f n st ! (n - 3) = MP_OBJ_NEW_SMALL_INT 5)
       \<and> mp_setup_code_state cs f 1 1
            [MP_OBJ_NEW_SMALL_INT 1, MP_OBJ_NEW_QSTR c, MP_OBJ_NEW_SMALL_INT 5]
           = Inl (MissingRequiredPositional 1)
       \<and> mp_setup_code_state cs f 4 0
            [MP_OBJ_NEW_SMALL_INT 1, MP_OBJ_NEW_SMALL_INT 2, MP_OBJ_NEW_SMALL_INT 3,
             MP_OBJ_NEW_SMALL_INT 4]
           = Inl (ArityMismatch 3 4)"
proof -
  have f: "n_pos_args f = 3" "n_def_args f = 1" "n_kwonly_args f = 0"
    "\<not> has_def_kw_args f" "\<not> takes_var_args f" "\<not> takes_kw_args f"
    "extra_args f = [MP_OBJ_NEW_SMALL_INT 10]" "args f = [a, b, c]"
    by (simp_all add: f_def mp_obj_new_fun_bc_def MP_SCOPE_FLAG_VARARGS_def
                      MP_SCOPE_FLAG_VARKEYWORDS_def)
  have box: "boxed (ip cs) j v = v" for j v
    using prelude by (simp add: boxed_def closed_over_def)
  have n3: "3 \<le> n" using frame by (simp add: n_def)
  \<comment> \<open>first call\<close>
  have "\<exists>cs'. mp_setup_code_state cs f 2 0 [MP_OBJ_NEW_SMALL_INT 1, MP_OBJ_NEW_SMALL_INT 2] = Inr cs'
               \<and> (\<forall>j < 2. state cs' ! (n_state cs - 1 - j)
                     = boxed (ip cs) j ([MP_OBJ_NEW_SMALL_INT 1, MP_OBJ_NEW_SMALL_INT 2] ! j))
               \<and> (\<forall>j. 2 \<le> j \<and> j < n_pos_args f \<longrightarrow>
                     state cs' ! (n_state cs - 1 - j)
                       = boxed (ip cs) j (extra_args f ! (j - (n_pos_args f - n_def_args f))))"
    using f frame prelude
    by (intro fast_path_binding) (simp_all add: closed_over_def)
  then obtain cs' where r1: "mp_setup_code_state cs f 2 0 [MP_OBJ_NEW_SMALL_INT 1, MP_OBJ_NEW_SMALL_INT 2] = Inr cs'"
    and a1: "\<forall>j < 2. state cs' ! (n - 1 - j) = [MP_OBJ_NEW_SMALL_INT 1, MP_OBJ_NEW_SMALL_INT 2] ! j"
    and d1: "\<forall>j. 2 \<le> j \<and> j < 3 \<longrightarrow> state cs' ! (n - 1 - j) = [MP_OBJ_NEW_SMALL_INT 10] ! (j - 2)"
    unfolding box n_def f by auto
  have p1: "\<exists>cs'. mp_setup_code_state cs f 2 0 [MP_OBJ_NEW_SMALL_INT 1, MP_OBJ_NEW_SMALL_INT 2] = Inr cs'
            \<and> state cs' ! (n - 1) = MP_OBJ_NEW_SMALL_INT 1
            \<and> state cs' ! (n - 2) = MP_OBJ_NEW_SMALL_INT 2
            \<and> state cs' ! (n - 3) = MP_OBJ_NEW_SMALL_INT 10"
    using r1 spec[OF a1, of 0] spec[OF a1, of 1] spec[OF d1, of 2]
    by (auto simp: numeral_2_eq_2 numeral_3_eq_3)
  \<comment> \<open>second call\<close>
  let ?argv = "[MP_OBJ_NEW_SMALL_INT 1, MP_OBJ_NEW_QSTR c, MP_OBJ_NEW_SMALL_INT 5]"
  define st0 where "st0 = copy_pos_args n 1 ?argv (replicate n MP_OBJ_NULL)"
  have len0: "length st0 = n" by (simp add: st0_def copy_pos_args_length)
  have s0: "st0 ! (n - Suc j) = (if j < 1 then ?argv ! j else MP_OBJ_NULL)" if "j < n" for j
    unfolding st0_def using copy_pos_args_nth[of "replicate n MP_OBJ_NULL" n 1 j ?argv] that n3
    by simp
  have fc: "find_arg_name f c = Some 2"
    using names f by (simp add: find_arg_name_def upt_conv_Cons numeral_3_eq_3)
  define st where "st = st0[n - Suc 2 := MP_OBJ_NEW_SMALL_INT 5]"
  have i3: "n - Suc (Suc (Suc 0)) = n - 3" by simp
  have bk: "bind_kwargs f n (n - 1 - 3 - 0) [MP_OBJ_NEW_QSTR c, MP_OBJ_NEW_SMALL_INT 5] [0..<1] st0
              = Inr st"
    using fc s0[of 2] n3 by (simp add: bind_kwarg_def st_def i3)
  have st_a: "st ! (n - 1) = MP_OBJ_NEW_SMALL_INT 1"
    using s0[of 0] n3 len0 by (simp add: st_def)
  have st_b: "st ! (n - 2) = MP_OBJ_NULL"
    using s0[of 1] n3 len0 by (simp add: st_def numeral_2_eq_2)
  have st_c: "st ! (n - 3) = MP_OBJ_NEW_SMALL_INT 5"
    using n3 len0 by (simp add: st_def numeral_3_eq_3)
  have st_c': "fill_def_pos_args f n st ! (n - 3) = MP_OBJ_NEW_SMALL_INT 5"
    using st_c by (simp add: fill_def_pos_args_keeps_filled)
  have p2: "\<exists>st. bind_kwargs f n (n - 1 - 3 - 0) [MP_OBJ_NEW_QSTR c, MP_OBJ_NEW_SMALL_INT 5] [0..<1]
                  (copy_pos_args n 1 ?argv (replicate n MP_OBJ_NULL)) = Inr st
            \<and> st ! (n - 1) = MP_OBJ_NEW_SMALL_INT 1
            \<and> st ! (n - 2) = MP_OBJ_NULL
            \<and> st ! (n - 3) = MP_OBJ_NEW_SMALL_INT 5
            \<and> fill_def_pos_args f n st ! (n - 3) = MP_OBJ_NEW_SMALL_INT 5"
    using bk st_a st_b st_c st_c' unfolding st0_def by blast
  have len: "length st = n" using len0 by (simp add: st_def)
  have fd: "fill_def_pos_args f n st ! (n - 2) = MP_OBJ_NULL"
    using fill_def_pos_args_nth[of st n f 1] f len n3 st_b by (simp add: numeral_2_eq_2)
  have "n - 3 + 1 = n - 2" and "Suc (n - 2) = n - 1" and "n - 2 < n"
    using n3 by arith+
  then have upt: "[n - 3 + 1..<n] = (n - 2) # [n - 1..<n]"
    by (simp add: upt_conv_Cons)
  have found: "find (\<lambda>d. fill_def_pos_args f n st ! d = MP_OBJ_NULL)
                  [n - n_pos_args f + n_def_args f..<n] = Some (n - 2)"
    using fd upt f by simp
  have idx: "n - Suc (n - 2) = Suc 0" using n3 by arith
  have kw: "check_kw_args f n (n - 1 - 3 - 0) 1 [MP_OBJ_NEW_QSTR c, MP_OBJ_NEW_SMALL_INT 5] st0
              = Inl (MissingRequiredPositional 1)"
    unfolding check_kw_args_def using f(6) bk by (simp add: found idx del: bind_kwargs.simps)
  have pos: "check_pos_args f (n_state cs) (n_state cs - 1 - n_pos_args f - n_kwonly_args f)
               1 1 ?argv (replicate (n_state cs) MP_OBJ_NULL)
             = Inr (replicate n MP_OBJ_NULL, n - 1 - 3 - 0, 1)"
    using f by (simp add: check_pos_args_slow n_def)
  have p3: "mp_setup_code_state cs f 1 1 ?argv = Inl (MissingRequiredPositional 1)"
    unfolding mp_setup_code_state_unfold pos
    using kw by (simp add: st0_def n_def)
  have p4: "mp_setup_code_state cs f 4 0
            [MP_OBJ_NEW_SMALL_INT 1, MP_OBJ_NEW_SMALL_INT 2, MP_OBJ_NEW_SMALL_INT 3,
             MP_OBJ_NEW_SMALL_INT 4] = Inl (ArityMismatch 3 4)"
    unfolding mp_setup_code_state_unfold using f
    by (simp add: check_pos_args_def fun_pos_args_mismatch_def)
  from p1 p2 p3 p4 show ?thesis by blast
qed

theorem scenario_abc_witness:
  "(\<exists>cs'. mp_setup_code_state
             \<lparr> code_info = [], ip = [0], sp = 0, exc_sp = 0, n_state = 3, state = [] \<rparr>
             (mp_obj_new_fun_bc mp_const_none 0 [1, 2, 3] 3 0
                (Tuple [MP_OBJ_NEW_SMALL_INT 10]) MP_OBJ_NULL [])
             2 0 [MP_OBJ_NEW_SMALL_INT 1, MP_OBJ_NEW_SMALL_INT 2] = Inr cs'
          \<and> state cs' ! 2 = MP_OBJ_NEW_SMALL_INT 1
          \<and> state cs' ! 1 = MP_OBJ_NEW_SMALL_INT 2
          \<and> state cs' ! 0 = MP_OBJ_NEW_SMALL_INT 10)
   \<and> mp_setup_code_state
        \<lparr> code_info = [], ip = [0], sp = 0, exc_sp = 0, n_state = 3, state = [] \<rparr>
        (mp_obj_new_fun_bc mp_const_none 0 [1, 2, 3] 3 0
           (Tuple [MP_OBJ_NEW_SMALL_INT 10]) MP_OBJ_NULL [])
        1 1 [MP_OBJ_NEW_SMALL_INT 1, MP_OBJ_NEW_QSTR 3, MP_OBJ_NEW_SMALL_INT 5]
      = Inl (MissingRequiredPositional 1)
   \<and> mp_setup_code_state
        \<lparr> code_info = [], ip = [0], sp = 0, exc_sp = 0, n_state = 3, state = [] \<rparr>
        (mp_obj_new_fun_bc mp_const_none 0 [1, 2, 3] 3 0
           (Tuple [MP_OBJ_NEW_SMALL_INT 10]) MP_OBJ_NULL [])
        4 0 [MP_OBJ_NEW_SMALL_INT 1, MP_OBJ_NEW_SMALL_INT 2, MP_OBJ_NEW_SMALL_INT 3,
             MP_OBJ_NEW_SMALL_INT 4]
      = Inl (ArityMismatch 3 4)"
proof -
  let ?cs = "\<lparr> code_info = [], ip = [0], sp = 0, exc_sp = 0, n_state = 3, state = [] \<rparr>"
  have h1: "distinct [1, 2, 3 :: qstr]" and h2: "3 \<le> n_state ?cs" and h3: "hd (ip ?cs) = 0"
    by simp_all
  show ?thesis
    using scenario_abc [OF h1 h2 h3, of mp_const_none "[]"] by simp
qed

section \<open>Claims about keyword arguments\<close>

text \<open>
  C5, amended. Take a call whose positional count passes the excess check and whose
  arguments are objects (never the null pointer, which the binder reads as an empty
  slot), and a keyword pair \<open>i\<close> whose name the inner loop finds at a positional
  parameter \<open>j\<close> that the call fills positionally. The call always fails,
  whatever the keyword's value, and the error is \<open>kw_error\<close> of the first offending
  pair of the call, which is pair \<open>i\<close> or a pair before it: the multiple-values error
  naming that pair when its name is in the parameter table, the unexpected-keyword error
  when it is not (then the callable has no variadic-keyword flag). So whenever no pair
  before \<open>i\<close> offends, the error is the multiple-values error naming parameter \<open>j\<close>.
  The claim as stated promises that error in every call; the counterexample is a call
  where an unknown keyword comes first.
\<close>

theorem keyword_for_filled_positional:
  assumes argv: "length argv = n_args + 2 * n_kw"
    and nonnull: "MP_OBJ_NULL \<notin> set argv"
    and arity: "n_args \<le> n_pos_args self \<or> takes_var_args self"
    and frame: "n_pos_args self + n_kwonly_args self + (if takes_var_args self then 1 else 0)
                  + (if takes_kw_args self then 1 else 0) \<le> n_state cs"
    and i: "i < n_kw"
    and name: "find_arg_name self (kw_name n_args argv i) = Some j"
    and filled: "j < n_args" "j < n_pos_args self"
  shows "(\<exists>i0 \<le> i. offending self n_args argv i0
             \<and> (\<forall>i' < i0. \<not> offending self n_args argv i')
             \<and> mp_setup_code_state cs self n_args n_kw argv
                 = Inl (kw_error self n_args argv i0))
       \<and> ((\<forall>i' < i. \<not> offending self n_args argv i')
            \<longrightarrow> mp_setup_code_state cs self n_args n_kw argv
                  = Inl (DuplicateArgument (kw_name n_args argv i)))"
proof -
  let ?r = "mp_setup_code_state cs self n_args n_kw argv"
  have off: "offending self n_args argv i"
    using name filled by (simp add: offending_def)
  from first_offender[OF off] obtain i0 where i0: "i0 \<le> i" "offending self n_args argv i0"
    "\<forall>i' < i0. \<not> offending self n_args argv i'"
    by blast
  have "i0 < n_kw" using i0(1) i by simp
  from binder_first_offender[OF argv arity frame nonnull this i0(2,3)]
  have r: "?r = Inl (kw_error self n_args argv i0)" .
  have 1: "\<exists>i0 \<le> i. offending self n_args argv i0
             \<and> (\<forall>i' < i0. \<not> offending self n_args argv i')
             \<and> ?r = Inl (kw_error self n_args argv i0)"
    using i0 r by blast
  have 2: "?r = Inl (DuplicateArgument (kw_name n_args argv i))"
    if "\<forall>i' < i. \<not> offending self n_args argv i'"
  proof -
    have "i0 = i" using that i0(1,2) by (cases "i0 = i") auto
    then show ?thesis using r kw_error_named[OF name] by simp
  qed
  from 1 2 show ?thesis by blast
qed

theorem keyword_for_filled_positional_witness:
  "mp_setup_code_state
     \<lparr> code_info = [], ip = [0], sp = 0, exc_sp = 0, n_state = 3, state = [] \<rparr>
     (mp_obj_new_fun_bc mp_const_none 0 [1, 2, 3] 3 0 MP_OBJ_NULL MP_OBJ_NULL [])
     2 2 [MP_OBJ_NEW_SMALL_INT 1, MP_OBJ_NEW_SMALL_INT 2,
          MP_OBJ_NEW_QSTR 3, MP_OBJ_NEW_SMALL_INT 3, MP_OBJ_NEW_QSTR 2, MP_OBJ_NEW_SMALL_INT 2]
   = Inl (DuplicateArgument 2)"
proof -
  let ?cs = "\<lparr> code_info = [], ip = [0], sp = 0, exc_sp = 0, n_state = 3, state = [] \<rparr>"
  let ?f = "mp_obj_new_fun_bc mp_const_none 0 [1, 2, 3] 3 0 MP_OBJ_NULL MP_OBJ_NULL []"
  let ?argv = "[MP_OBJ_NEW_SMALL_INT 1, MP_OBJ_NEW_SMALL_INT 2,
          MP_OBJ_NEW_QSTR 3, MP_OBJ_NEW_SMALL_INT 3, MP_OBJ_NEW_QSTR 2, MP_OBJ_NEW_SMALL_INT 2]"
  have f: "n_pos_args ?f = 3" "n_kwonly_args ?f = 0" "\<not> takes_var_args ?f"
    "\<not> takes_kw_args ?f" "args ?f = [1, 2, 3]"
    by (simp_all add: mp_obj_new_fun_bc_def MP_SCOPE_FLAG_VARARGS_def
                      MP_SCOPE_FLAG_VARKEYWORDS_def)
  have names: "kw_name 2 ?argv 0 = 3" "kw_name 2 ?argv 1 = 2"
    by (simp_all add: kw_name_def)
  have found: "find_arg_name ?f 3 = Some 2" "find_arg_name ?f 2 = Some 1"
    using f by (simp_all add: find_arg_name_def upt_conv_Cons numeral_3_eq_3)
  have h1: "length ?argv = 2 + 2 * 2" by simp
  have h2: "MP_OBJ_NULL \<notin> set ?argv" by simp
  have h3: "2 \<le> n_pos_args ?f \<or> takes_var_args ?f" using f by simp
  have h4: "n_pos_args ?f + n_kwonly_args ?f + (if takes_var_args ?f then 1 else 0)
              + (if takes_kw_args ?f then 1 else 0) \<le> n_state ?cs"
    using f by simp
  have h5: "(1::nat) < 2" by simp
  have h6: "find_arg_name ?f (kw_name 2 ?argv 1) = Some 1"
    using names found by simp
  have h7: "(1::nat) < 2" "1 < n_pos_args ?f" using f by simp_all
  have first: "\<forall>i' < 1. \<not> offending ?f 2 ?argv i'"
    using names found f by (simp add: offending_def)
  show ?thesis
    using keyword_for_filled_positional [OF h1 h2 h3 h4 h5 h6 h7] first names by simp
qed

text \<open>
  The claim C5 as stated fails when an unknown keyword precedes the duplicate one: the
  callable has the one parameter \<open>a\<close> (qstr 1) and no variadic-keyword flag, the call
  passes \<open>1\<close> positionally, then the unknown keyword 9, then \<open>a = 1\<close>. The keyword \<open>a\<close>
  names a parameter that the positional argument has filled, yet the error is the
  unexpected-keyword one.
\<close>

theorem keyword_for_filled_positional_counterexample:
  "find_arg_name (mp_obj_new_fun_bc mp_const_none 0 [1] 1 0 MP_OBJ_NULL MP_OBJ_NULL []) 1 = Some 0
   \<and> mp_setup_code_state
       \<lparr> code_info = [], ip = [0], sp = 0, exc_sp = 0, n_state = 1, state = [] \<rparr>
       (mp_obj_new_fun_bc mp_const_none 0 [1] 1 0 MP_OBJ_NULL MP_OBJ_NULL [])
       1 2 [MP_OBJ_NEW_SMALL_INT 1, MP_OBJ_NEW_QSTR 9, MP_OBJ_NEW_SMALL_INT 0,
            MP_OBJ_NEW_QSTR 1, MP_OBJ_NEW_SMALL_INT 1]
     = Inl UnexpectedKeyword"
  by code_simp

text \<open>
  C10, amended. Take a call whose positional count passes the excess check and whose
  arguments are objects, and two keyword pairs \<open>i1 < i2\<close> with the same name, a name the
  inner loop finds in the parameter table (positional or keyword-only parameter alike).
  The call always fails, and the error is \<open>kw_error\<close> of the first offending pair of
  the call, which is pair \<open>i2\<close> or a pair before it. Whenever no pair before \<open>i2\<close>
  other than \<open>i1\<close> offends, the error is the multiple-values error for the repeated
  name: raised at \<open>i2\<close>, which finds the slot filled by \<open>i1\<close>, or at \<open>i1\<close> when a
  positional argument already filled the slot. The claim as stated covers every repeated
  keyword name; a name outside the parameter table is stored twice into the
  variadic-keyword dict without any error, as the counterexample shows.
\<close>

theorem keyword_twice:
  assumes argv: "length argv = n_args + 2 * n_kw"
    and nonnull: "MP_OBJ_NULL \<notin> set argv"
    and arity: "n_args \<le> n_pos_args self \<or> takes_var_args self"
    and frame: "n_pos_args self + n_kwonly_args self + (if takes_var_args self then 1 else 0)
                  + (if takes_kw_args self then 1 else 0) \<le> n_state cs"
    and twice: "i1 < i2" "i2 < n_kw" "kw_name n_args argv i1 = kw_name n_args argv i2"
    and name: "find_arg_name self (kw_name n_args argv i2) = Some j"
  shows "(\<exists>i0 \<le> i2. offending self n_args argv i0
             \<and> (\<forall>i' < i0. \<not> offending self n_args argv i')
             \<and> mp_setup_code_state cs self n_args n_kw argv
                 = Inl (kw_error self n_args argv i0))
       \<and> ((\<forall>i' < i2. i' \<noteq> i1 \<longrightarrow> \<not> offending self n_args argv i')
            \<longrightarrow> mp_setup_code_state cs self n_args n_kw argv
                  = Inl (DuplicateArgument (kw_name n_args argv i2)))"
proof -
  let ?r = "mp_setup_code_state cs self n_args n_kw argv"
  have off: "offending self n_args argv i2"
    using name twice(1,3) by (auto simp: offending_def)
  from first_offender[OF off] obtain i0 where i0: "i0 \<le> i2" "offending self n_args argv i0"
    "\<forall>i' < i0. \<not> offending self n_args argv i'"
    by blast
  have "i0 < n_kw" using i0(1) twice(2) by simp
  from binder_first_offender[OF argv arity frame nonnull this i0(2,3)]
  have r: "?r = Inl (kw_error self n_args argv i0)" .
  have 1: "\<exists>i0 \<le> i2. offending self n_args argv i0
             \<and> (\<forall>i' < i0. \<not> offending self n_args argv i')
             \<and> ?r = Inl (kw_error self n_args argv i0)"
    using i0 r by blast
  have 2: "?r = Inl (DuplicateArgument (kw_name n_args argv i2))"
    if "\<forall>i' < i2. i' \<noteq> i1 \<longrightarrow> \<not> offending self n_args argv i'"
  proof -
    have "i0 = i2 \<or> i0 = i1"
    proof (cases "i0 = i2")
      case False
      then have "i0 < i2" using i0(1) by simp
      then show ?thesis using that i0(2) by blast
    qed simp
    then have "kw_name n_args argv i0 = kw_name n_args argv i2" using twice(3) by auto
    then have "kw_error self n_args argv i0 = DuplicateArgument (kw_name n_args argv i2)"
      using name by (simp add: kw_error_def)
    then show ?thesis using r by simp
  qed
  from 1 2 show ?thesis by blast
qed

theorem keyword_twice_witness:
  "mp_setup_code_state
     \<lparr> code_info = [], ip = [0], sp = 0, exc_sp = 0, n_state = 1, state = [] \<rparr>
     (mp_obj_new_fun_bc mp_const_none 0 [1] 0 1 MP_OBJ_NULL MP_OBJ_NULL [])
     0 2 [MP_OBJ_NEW_QSTR 1, MP_OBJ_NEW_SMALL_INT 7, MP_OBJ_NEW_QSTR 1, MP_OBJ_NEW_SMALL_INT 8]
   = Inl (DuplicateArgument 1)"
proof -
  let ?cs = "\<lparr> code_info = [], ip = [0], sp = 0, exc_sp = 0, n_state = 1, state = [] \<rparr>"
  let ?f = "mp_obj_new_fun_bc mp_const_none 0 [1] 0 1 MP_OBJ_NULL MP_OBJ_NULL []"
  let ?argv = "[MP_OBJ_NEW_QSTR 1, MP_OBJ_NEW_SMALL_INT 7, MP_OBJ_NEW_QSTR 1,
                MP_OBJ_NEW_SMALL_INT 8]"
  have f: "n_pos_args ?f = 0" "n_kwonly_args ?f = 1" "\<not> takes_var_args ?f"
    "\<not> takes_kw_args ?f" "args ?f = [1]"
    by (simp_all add: mp_obj_new_fun_bc_def MP_SCOPE_FLAG_VARARGS_def
                      MP_SCOPE_FLAG_VARKEYWORDS_def)
  have names: "kw_name 0 ?argv 0 = 1" "kw_name 0 ?argv 1 = 1"
    by (simp_all add: kw_name_def)
  have found: "find_arg_name ?f 1 = Some 0"
    using f by (simp add: find_arg_name_def)
  have h1: "length ?argv = 0 + 2 * 2" by simp
  have h2: "MP_OBJ_NULL \<notin> set ?argv" by simp
  have h3: "0 \<le> n_pos_args ?f \<or> takes_var_args ?f" by simp
  have h4: "n_pos_args ?f + n_kwonly_args ?f + (if takes_var_args ?f then 1 else 0)
              + (if takes_kw_args ?f then 1 else 0) \<le> n_state ?cs"
    using f by simp
  have h5: "(0::nat) < 1" "(1::nat) < 2" "kw_name 0 ?argv 0 = kw_name 0 ?argv 1"
    using names by simp_all
  have h6: "find_arg_name ?f (kw_name 0 ?argv 1) = Some 0"
    using names found by simp
  have others: "\<forall>i' < 1. i' \<noteq> 0 \<longrightarrow> \<not> offending ?f 0 ?argv i'" by simp
  show ?thesis
    using keyword_twice [OF h1 h2 h3 h4 h5 h6] others names by simp
qed

text \<open>
  The claim C10 as stated fails for a name that is no parameter: the callable has no
  parameters and the variadic-keyword flag, the call passes the keyword 5 twice. The
  binder succeeds and the dict holds the second value.
\<close>

theorem keyword_twice_counterexample:
  "mp_setup_code_state
     \<lparr> code_info = [], ip = [0], sp = 0, exc_sp = 0, n_state = 1, state = [] \<rparr>
     (mp_obj_new_fun_bc mp_const_none MP_SCOPE_FLAG_VARKEYWORDS [] 0 0 MP_OBJ_NULL MP_OBJ_NULL [])
     0 2 [MP_OBJ_NEW_QSTR 5, MP_OBJ_NEW_SMALL_INT 1, MP_OBJ_NEW_QSTR 5, MP_OBJ_NEW_SMALL_INT 2]
   = Inr \<lparr> code_info = [], ip = [], sp = -1, exc_sp = -1, n_state = 1,
           state = [Dict [(MP_OBJ_NEW_QSTR 5, MP_OBJ_NEW_SMALL_INT 2)]] \<rparr>"
  by code_simp

section \<open>Claims about keyword-only parameters\<close>

lemma no_keywords_kwonly:
  assumes "n_kw = 0" and "\<not> has_def_kw_args self" and "n_kwonly_args self \<noteq> 0"
    and "if n_args \<le> n_pos_args self then n_pos_args self - n_def_args self \<le> n_args
         else takes_var_args self"
  shows "mp_setup_code_state cs self n_args n_kw argv = Inl MissingKeywordOnly"
proof (cases "n_args \<le> n_pos_args self")
  case True
  then have "\<not> n_pos_args self < n_args" by simp
  then show ?thesis
    using assms True unfolding mp_setup_code_state_unfold
    by (simp add: check_pos_args_def check_kw_args_def case_prod_beta)
next
  case False
  then have "n_pos_args self < n_args" by simp
  then show ?thesis
    using assms False unfolding mp_setup_code_state_unfold
    by (simp add: check_pos_args_def check_kw_args_def)
qed

text \<open>A call that leaves a keyword-only parameter without value and default fails.\<close>

lemma kwonly_without_value_fails:
  assumes argv: "length argv = n_args + 2 * n_kw"
    and frame: "n_pos_args self + n_kwonly_args self + (if takes_var_args self then 1 else 0)
                  + (if takes_kw_args self then 1 else 0) \<le> n_state cs"
    and k: "k < n_kwonly_args self"
    and unsupplied: "\<not> supplied self n_args n_kw argv (n_pos_args self + k)"
    and nodefault: "kw_default self k = None"
  shows "\<exists>e. mp_setup_code_state cs self n_args n_kw argv = Inl e"
proof -
  let ?n = "n_state cs" and ?P = "n_pos_args self" and ?K = "n_kwonly_args self"
  let ?kwargs = "drop n_args argv"
  let ?r = "mp_setup_code_state cs self n_args n_kw argv"
  have K: "?K \<noteq> 0" using k by simp
  show ?thesis
  proof (cases "n_args \<le> ?P \<or> takes_var_args self")
    case False
    then have "?r = Inl (ArityMismatch ?P n_args)"
      by (simp add: mp_setup_code_state_unfold check_pos_args_def fun_pos_args_mismatch_def)
    then show ?thesis by simp
  next
    case arity: True
    show ?thesis
    proof (cases "n_kw \<noteq> 0 \<or> has_def_kw_args self")
      case False
      show ?thesis
      proof (cases "n_args < ?P - n_def_args self")
        case True
        then have "?r = Inl (ArityMismatch (?P - n_def_args self) n_args)"
          using fast_path_too_few[of self n_args cs argv] False by simp
        then show ?thesis by simp
      next
        case enough: False
        have "?r = Inl MissingKeywordOnly"
          using no_keywords_kwonly[OF _ _ K, of n_kw n_args cs argv] False enough arity
          by (auto split: if_splits)
        then show ?thesis by simp
      qed
    next
      case slow: True
      show ?thesis
      proof (rule keyword_path[OF arity slow frame, of argv])
        fix st vpk
        assume len: "length st = ?n"
          and empty: "\<And>j. n_args \<le> j \<or> ?P \<le> j \<Longrightarrow> j < ?P + ?K
                        \<Longrightarrow> st ! (?n - Suc j) = MP_OBJ_NULL"
          and dict: "takes_kw_args self \<Longrightarrow>
             vpk = ?n - Suc (?P + ?K + (if takes_var_args self then 1 else 0))
             \<and> vpk < ?n \<and> st ! vpk = Dict []"
          and r: "?r = (case bind_kwargs self ?n vpk ?kwargs [0..<n_kw] st of
                          Inl e \<Rightarrow> Inl e
                        | Inr st2 \<Rightarrow> after_kw_loop cs self st2)"
        have PK: "?P + ?K \<le> ?n" using frame by simp
        have jn: "?P + k < ?n" using k PK by simp
        have slot: "?n - 1 - ?P - k = ?n - Suc (?P + k)" by simp
        have st_k: "st ! (?n - Suc (?P + k)) = MP_OBJ_NULL"
          using empty[of "?P + k"] k by simp
        have ne: "vpk \<noteq> ?n - Suc (?P + k)" if "takes_kw_args self"
          using dict[OF that] k frame that by (auto split: if_splits)
        note unnamed = not_supplied_unnamed[OF unsupplied argv]
        show ?thesis
        proof (cases "bind_kwargs self ?n vpk ?kwargs [0..<n_kw] st")
          case (Inl e)
          then show ?thesis unfolding r by simp
        next
          case (Inr st2)
          have st2_k: "st2 ! (?n - Suc (?P + k)) = MP_OBJ_NULL"
            using bind_kwargs_keeps_unnamed[OF Inr unnamed jn PK ne] st_k by simp
          let ?st3 = "fill_def_pos_args self ?n st2"
          have below: "?n - Suc (?P + k) < ?n - ?P" using jn by arith
          have st3_k: "?st3 ! (?n - 1 - ?P - k) = MP_OBJ_NULL"
            using fill_def_pos_args_below[OF below] st2_k by (simp add: slot)
          have nd: "has_def_kw_args self \<Longrightarrow>
                mp_map_lookup (extra_args self ! n_def_args self)
                  (MP_OBJ_NEW_QSTR (args self ! (?P + k))) = None"
            using nodefault by (simp add: kw_default_def)
          have others: "\<forall>i'\<in>set [0..<k]. ?n - 1 - ?P - i' \<noteq> ?n - 1 - ?P - k"
            using jn by auto
          have "\<exists>i'\<in>set ([0..<k] @ [k]).
                  fill_kwonly_args self ?n ([0..<k] @ k # [Suc k..<?K]) ?st3
                    = Inl (MissingRequiredKeyword (args self ! (?P + i')))"
            by (rule fill_kwonly_args_fails[OF st3_k nd others])
          then obtain e where fk: "fill_kwonly_args self ?n [0..<?K] ?st3 = Inl e"
            using upt_split_at[OF k] by auto
          show ?thesis
          proof (cases "find (\<lambda>d. ?st3 ! d = MP_OBJ_NULL) [?n - ?P + n_def_args self..<?n]")
            case (Some d)
            then show ?thesis unfolding r Inr by (simp add: after_kw_loop_def)
          next
            case None
            then show ?thesis unfolding r Inr using fk by (simp add: after_kw_loop_def)
          qed
        qed
      qed
    qed
  qed
qed

text \<open>
  C7, amended. Take a callable with a keyword-only parameter (the \<open>k\<close>-th one), and a
  call of objects that does not supply it, the default-keyword mapping being absent or
  without an entry for it. The call always fails, whatever default positional values the
  callable has captured, and the error is that of the first check of the binder that the
  call does not pass:
  \<^item> the arity error with \<open>expected = n_pos_args\<close> when there are excess positional
    arguments and no variadic-positional flag;
  \<^item> with no keywords and no default-keyword mapping, the arity error with
    \<open>expected = n_pos_args - n_def_args\<close> when the positional arguments are too few, and
    "missing keyword-only argument" otherwise;
  \<^item> with keywords or a default-keyword mapping, \<open>kw_error\<close> of the first offending
    keyword pair if there is one; otherwise "missing required positional argument" for
    the last positional parameter without default that the call does not supply, if
    there is one; otherwise "missing required keyword argument" naming the first
    keyword-only parameter that has neither value nor default, which is the \<open>k\<close>-th one
    or one before it.
  The claim as stated names only the two keyword failures; the counterexample is a call
  with too few positional arguments.
\<close>

theorem keyword_only_unsatisfied:
  assumes argv: "length argv = n_args + 2 * n_kw"
    and nonnull: "MP_OBJ_NULL \<notin> set argv"
    and frame: "n_pos_args self + n_kwonly_args self + (if takes_var_args self then 1 else 0)
                  + (if takes_kw_args self then 1 else 0) \<le> n_state cs"
    and defaults: "n_def_args self \<le> n_pos_args self"
    and k: "k < n_kwonly_args self"
    and unsupplied: "\<not> supplied self n_args n_kw argv (n_pos_args self + k)"
    and nodefault: "kw_default self k = None"
  shows "(\<exists>e. mp_setup_code_state cs self n_args n_kw argv = Inl e)
       \<and> (n_pos_args self < n_args \<and> \<not> takes_var_args self
            \<longrightarrow> mp_setup_code_state cs self n_args n_kw argv
                  = Inl (ArityMismatch (n_pos_args self) n_args))
       \<and> ((n_args \<le> n_pos_args self \<or> takes_var_args self)
             \<and> n_kw = 0 \<and> \<not> has_def_kw_args self
            \<longrightarrow> mp_setup_code_state cs self n_args n_kw argv
                  = (if n_args < n_pos_args self - n_def_args self
                     then Inl (ArityMismatch (n_pos_args self - n_def_args self) n_args)
                     else Inl MissingKeywordOnly))
       \<and> ((n_args \<le> n_pos_args self \<or> takes_var_args self)
             \<and> (n_kw \<noteq> 0 \<or> has_def_kw_args self)
            \<longrightarrow> (\<forall>i0 < n_kw. offending self n_args argv i0
                                \<and> (\<forall>i < i0. \<not> offending self n_args argv i)
                     \<longrightarrow> mp_setup_code_state cs self n_args n_kw argv
                           = Inl (kw_error self n_args argv i0))
               \<and> ((\<forall>i < n_kw. \<not> offending self n_args argv i)
                    \<longrightarrow> (\<forall>j < n_pos_args self - n_def_args self.
                            \<not> supplied self n_args n_kw argv j
                            \<and> (\<forall>j'. j < j' \<and> j' < n_pos_args self - n_def_args self
                                   \<longrightarrow> supplied self n_args n_kw argv j')
                            \<longrightarrow> mp_setup_code_state cs self n_args n_kw argv
                                  = Inl (MissingRequiredPositional j))
                       \<and> ((\<forall>j < n_pos_args self - n_def_args self.
                               supplied self n_args n_kw argv j)
                            \<longrightarrow> (\<exists>k' \<le> k.
                                    \<not> supplied self n_args n_kw argv (n_pos_args self + k')
                                    \<and> kw_default self k' = None
                                    \<and> (\<forall>k'' < k'.
                                          supplied self n_args n_kw argv (n_pos_args self + k'')
                                          \<or> kw_default self k'' \<noteq> None)
                                    \<and> mp_setup_code_state cs self n_args n_kw argv
                                        = Inl (MissingRequiredKeyword
                                                 (args self ! (n_pos_args self + k')))))))"
proof -
  let ?P = "n_pos_args self" and ?K = "n_kwonly_args self" and ?D = "n_def_args self"
  let ?r = "mp_setup_code_state cs self n_args n_kw argv"
  let ?off = "offending self n_args argv"
  let ?sup = "supplied self n_args n_kw argv"
  have K: "?K \<noteq> 0" using k by simp
  have fails: "\<exists>e. ?r = Inl e"
    by (rule kwonly_without_value_fails[OF argv frame k unsupplied nodefault])
  have excess: "?r = Inl (ArityMismatch ?P n_args)" if "?P < n_args \<and> \<not> takes_var_args self"
    using that by (simp add: mp_setup_code_state_unfold check_pos_args_def fun_pos_args_mismatch_def)
  have fast: "?r = (if n_args < ?P - ?D then Inl (ArityMismatch (?P - ?D) n_args)
                    else Inl MissingKeywordOnly)"
    if f: "(n_args \<le> ?P \<or> takes_var_args self) \<and> n_kw = 0 \<and> \<not> has_def_kw_args self"
  proof (cases "n_args < ?P - ?D")
    case True
    then show ?thesis using fast_path_too_few[of self n_args cs argv] f by simp
  next
    case False
    then have "?r = Inl MissingKeywordOnly"
      using no_keywords_kwonly[OF _ _ K, of n_kw n_args cs argv] f
      by (auto split: if_splits)
    then show ?thesis using False by simp
  qed
  have offender: "?r = Inl (kw_error self n_args argv i0)"
    if "n_args \<le> ?P \<or> takes_var_args self" "i0 < n_kw" "?off i0" "\<forall>i < i0. \<not> ?off i" for i0
    using binder_first_offender[OF argv that(1) frame nonnull that(2,3,4)] .
  have positional: "?r = Inl (MissingRequiredPositional j)"
    if "n_args \<le> ?P \<or> takes_var_args self" "n_kw \<noteq> 0 \<or> has_def_kw_args self"
      "\<forall>i < n_kw. \<not> ?off i" "j < ?P - ?D" "\<not> ?sup j"
      "\<forall>j'. j < j' \<and> j' < ?P - ?D \<longrightarrow> ?sup j'" for j
    using binder_missing_positional[OF argv that(1,2) frame nonnull that(3) defaults that(4,5,6)] .
  have keyword: "\<exists>k' \<le> k. \<not> ?sup (?P + k') \<and> kw_default self k' = None
                   \<and> (\<forall>k'' < k'. ?sup (?P + k'') \<or> kw_default self k'' \<noteq> None)
                   \<and> ?r = Inl (MissingRequiredKeyword (args self ! (?P + k')))"
    if "n_args \<le> ?P \<or> takes_var_args self" "n_kw \<noteq> 0 \<or> has_def_kw_args self"
      "\<forall>i < n_kw. \<not> ?off i" "\<forall>j < ?P - ?D. ?sup j"
  proof (rule least_unsatisfied[OF unsupplied nodefault])
    fix k'
    assume k': "k' \<le> k" "\<not> ?sup (?P + k')" "kw_default self k' = None"
      "\<forall>k'' < k'. ?sup (?P + k'') \<or> kw_default self k'' \<noteq> None"
    have "k' < ?K" using k'(1) k by simp
    from binder_missing_keyword[OF argv that(1,2) frame nonnull that(3) defaults that(4)
           this k'(2,3,4)]
    have res: "?r = Inl (MissingRequiredKeyword (args self ! (?P + k')))" .
    from k' res show ?thesis by (intro exI[of _ k']) simp
  qed
  have slow: "(\<forall>i0 < n_kw. ?off i0 \<and> (\<forall>i < i0. \<not> ?off i)
                     \<longrightarrow> ?r = Inl (kw_error self n_args argv i0))
               \<and> ((\<forall>i < n_kw. \<not> ?off i)
                    \<longrightarrow> (\<forall>j < ?P - ?D. \<not> ?sup j \<and> (\<forall>j'. j < j' \<and> j' < ?P - ?D \<longrightarrow> ?sup j')
                            \<longrightarrow> ?r = Inl (MissingRequiredPositional j))
                       \<and> ((\<forall>j < ?P - ?D. ?sup j)
                            \<longrightarrow> (\<exists>k' \<le> k. \<not> ?sup (?P + k') \<and> kw_default self k' = None
                                    \<and> (\<forall>k'' < k'. ?sup (?P + k'') \<or> kw_default self k'' \<noteq> None)
                                    \<and> ?r = Inl (MissingRequiredKeyword (args self ! (?P + k'))))))"
    if c: "(n_args \<le> ?P \<or> takes_var_args self) \<and> (n_kw \<noteq> 0 \<or> has_def_kw_args self)"
  proof (intro conjI allI impI)
    fix i0 assume i0: "i0 < n_kw" and a: "?off i0 \<and> (\<forall>i < i0. \<not> ?off i)"
    show "?r = Inl (kw_error self n_args argv i0)"
      by (rule offender[OF conjunct1[OF c] i0 conjunct1[OF a] conjunct2[OF a]])
  next
    fix j assume o: "\<forall>i < n_kw. \<not> ?off i" and j: "j < ?P - ?D"
      and a: "\<not> ?sup j \<and> (\<forall>j'. j < j' \<and> j' < ?P - ?D \<longrightarrow> ?sup j')"
    show "?r = Inl (MissingRequiredPositional j)"
      by (rule positional[OF conjunct1[OF c] conjunct2[OF c] o j conjunct1[OF a] conjunct2[OF a]])
  next
    assume o: "\<forall>i < n_kw. \<not> ?off i" and q: "\<forall>j < ?P - ?D. ?sup j"
    show "\<exists>k' \<le> k. \<not> ?sup (?P + k') \<and> kw_default self k' = None
                 \<and> (\<forall>k'' < k'. ?sup (?P + k'') \<or> kw_default self k'' \<noteq> None)
                 \<and> ?r = Inl (MissingRequiredKeyword (args self ! (?P + k')))"
      by (rule keyword[OF conjunct1[OF c] conjunct2[OF c] o q])
  qed
  show ?thesis
  proof (intro conjI)
    show "\<exists>e. ?r = Inl e" by (rule fails)
  qed ((rule impI, rule excess, assumption), (rule impI, rule fast, assumption),
       (rule impI, rule slow, assumption))
qed

theorem keyword_only_unsatisfied_witness:
  "mp_setup_code_state
     \<lparr> code_info = [], ip = [0], sp = 0, exc_sp = 0, n_state = 3, state = [] \<rparr>
     (mp_obj_new_fun_bc mp_const_none MP_SCOPE_FLAG_VARKEYWORDS [1, 2] 1 1
        MP_OBJ_NULL MP_OBJ_NULL [])
     1 1 [MP_OBJ_NEW_SMALL_INT 1, MP_OBJ_NEW_QSTR 9, MP_OBJ_NEW_SMALL_INT 2]
   = Inl (MissingRequiredKeyword 2)"
proof -
  let ?cs = "\<lparr> code_info = [], ip = [0], sp = 0, exc_sp = 0, n_state = 3, state = [] \<rparr>"
  let ?f = "mp_obj_new_fun_bc mp_const_none MP_SCOPE_FLAG_VARKEYWORDS [1, 2] 1 1
              MP_OBJ_NULL MP_OBJ_NULL []"
  let ?argv = "[MP_OBJ_NEW_SMALL_INT 1, MP_OBJ_NEW_QSTR 9, MP_OBJ_NEW_SMALL_INT 2]"
  have f: "n_pos_args ?f = 1" "n_kwonly_args ?f = 1" "n_def_args ?f = 0"
    "\<not> takes_var_args ?f" "takes_kw_args ?f" "\<not> has_def_kw_args ?f" "args ?f = [1, 2]"
    by (simp_all add: mp_obj_new_fun_bc_def MP_SCOPE_FLAG_VARARGS_def
                      MP_SCOPE_FLAG_VARKEYWORDS_def)
  have name: "kw_name 1 ?argv 0 = 9" by (simp add: kw_name_def)
  have unknown: "find_arg_name ?f 9 = None"
    using f by (simp add: find_arg_name_def upt_conv_Cons numeral_2_eq_2)
  have sup0: "supplied ?f 1 1 ?argv 0" using f by (simp add: supplied_def)
  have sup1: "\<not> supplied ?f 1 1 ?argv 1" using f name unknown by (simp add: supplied_def)
  have h1: "length ?argv = 1 + 2 * 1" by simp
  have h2: "MP_OBJ_NULL \<notin> set ?argv" by simp
  have h3: "n_pos_args ?f + n_kwonly_args ?f + (if takes_var_args ?f then 1 else 0)
              + (if takes_kw_args ?f then 1 else 0) \<le> n_state ?cs"
    using f by simp
  have h4: "n_def_args ?f \<le> n_pos_args ?f" using f by simp
  have h5: "0 < n_kwonly_args ?f" using f by simp
  have h6: "\<not> supplied ?f 1 1 ?argv (n_pos_args ?f + 0)" using sup1 f by simp
  have h7: "kw_default ?f 0 = None" using f by (simp add: kw_default_def)
  have ok: "\<forall>i < 1. \<not> offending ?f 1 ?argv i"
    using name unknown f by (simp add: offending_def)
  have req: "\<forall>j < n_pos_args ?f - n_def_args ?f. supplied ?f 1 1 ?argv j"
    using f sup0 by simp
  have c: "(1 \<le> n_pos_args ?f \<or> takes_var_args ?f) \<and> ((1::nat) \<noteq> 0 \<or> has_def_kw_args ?f)"
    using f by simp
  note main = keyword_only_unsatisfied [OF h1 h2 h3 h4 h5 h6 h7]
  note s = main[THEN conjunct2, THEN conjunct2, THEN conjunct2, THEN mp, OF c]
  note s2 = s[THEN conjunct2, THEN mp, OF ok, THEN conjunct2, THEN mp, OF req]
  from s2 obtain k' where "k' \<le> 0"
    and "mp_setup_code_state ?cs ?f 1 1 ?argv
           = Inl (MissingRequiredKeyword (args ?f ! (n_pos_args ?f + k')))"
    by blast
  then show ?thesis using f by simp
qed

text \<open>
  The claim C7 as stated fails when the positional part of the call is short: the
  callable has the positional parameter 1 without default and the keyword-only parameter
  2, the call passes nothing. No value and no default exist for the keyword-only
  parameter, and the failure is the arity error.
\<close>

theorem keyword_only_unsatisfied_counterexample:
  "mp_setup_code_state
     \<lparr> code_info = [], ip = [0], sp = 0, exc_sp = 0, n_state = 2, state = [] \<rparr>
     (mp_obj_new_fun_bc mp_const_none 0 [1, 2] 1 1 MP_OBJ_NULL MP_OBJ_NULL [])
     0 0 []
   = Inl (ArityMismatch 1 0)"
  by code_simp

section \<open>Claims about unknown keywords\<close>

text \<open>
  C6, amended. Take a call of objects with a keyword pair \<open>i\<close> whose name is in no entry
  of the parameter table.
  \<^item> On a callable without the variadic-keyword flag the call always fails: with the
    arity error when the positional-excess check fires, otherwise with \<open>kw_error\<close> of
    the first offending keyword pair, which is pair \<open>i\<close> or a pair before it; this is
    the unexpected-keyword error whenever no pair before \<open>i\<close> offends.
  \<^item> On a callable with the flag the call never fails with the unexpected-keyword error.
    It succeeds exactly when nothing else is wrong with it: the positional count passes
    the excess check, no keyword pair offends, every positional parameter without
    default is supplied, and every keyword-only parameter is supplied or has an entry in
    the default-keyword mapping. Whenever it succeeds, the variadic-keyword slot (the
    local after the parameters and the variadic-positional slot) holds a dict with
    exactly the unmatched pairs: as a mapping it is the unmatched pairs with a later
    pair overriding an earlier one of the same name, and it is the list of the unmatched
    pairs in call order when their names differ.
  The claim as stated promises the unexpected-keyword error in every call on the first
  callable and success of every such call on the second; the counterexample has a call
  with an excess positional argument, and a call that misses a required positional
  argument.
\<close>

theorem unknown_keyword:
  assumes argv: "length argv = n_args + 2 * n_kw"
    and nonnull: "MP_OBJ_NULL \<notin> set argv"
    and frame: "n_pos_args self + n_kwonly_args self + (if takes_var_args self then 1 else 0)
                  + (if takes_kw_args self then 1 else 0) \<le> n_state cs"
    and prelude: "unat (hd (ip cs)) \<le> length (tl (ip cs))"
                 "\<forall>l \<in> set (closed_over (ip cs)). l < n_state cs"
    and i: "i < n_kw"
    and unknown: "find_arg_name self (kw_name n_args argv i) = None"
    and defaults: "n_def_args self \<le> n_pos_args self"
  shows "(\<not> takes_kw_args self \<longrightarrow>
            (if n_pos_args self < n_args \<and> \<not> takes_var_args self
             then mp_setup_code_state cs self n_args n_kw argv
                    = Inl (ArityMismatch (n_pos_args self) n_args)
             else (\<exists>i0 \<le> i. offending self n_args argv i0
                      \<and> (\<forall>i' < i0. \<not> offending self n_args argv i')
                      \<and> mp_setup_code_state cs self n_args n_kw argv
                          = Inl (kw_error self n_args argv i0))
                  \<and> ((\<forall>i' < i. \<not> offending self n_args argv i')
                       \<longrightarrow> mp_setup_code_state cs self n_args n_kw argv
                             = Inl UnexpectedKeyword)))
       \<and> (takes_kw_args self \<longrightarrow>
            mp_setup_code_state cs self n_args n_kw argv \<noteq> Inl UnexpectedKeyword
            \<and> (\<forall>cs'. mp_setup_code_state cs self n_args n_kw argv = Inr cs' \<longrightarrow>
                  (\<exists>kvs. state cs' ! (n_state cs - 1 - (n_pos_args self + n_kwonly_args self
                                                        + (if takes_var_args self then 1 else 0)))
                            = boxed (ip cs) (n_pos_args self + n_kwonly_args self
                                              + (if takes_var_args self then 1 else 0)) (Dict kvs)
                     \<and> map_of kvs = map_of (rev (unmatched_kwargs self (drop n_args argv) [0..<n_kw]))
                     \<and> (distinct (map fst (unmatched_kwargs self (drop n_args argv) [0..<n_kw]))
                          \<longrightarrow> kvs = unmatched_kwargs self (drop n_args argv) [0..<n_kw])))
            \<and> ((\<exists>cs'. mp_setup_code_state cs self n_args n_kw argv = Inr cs')
                 \<longleftrightarrow> (n_args \<le> n_pos_args self \<or> takes_var_args self)
                   \<and> (\<forall>i' < n_kw. \<not> offending self n_args argv i')
                   \<and> (\<forall>j < n_pos_args self - n_def_args self. supplied self n_args n_kw argv j)
                   \<and> (\<forall>k < n_kwonly_args self.
                         supplied self n_args n_kw argv (n_pos_args self + k)
                         \<or> kw_default self k \<noteq> None)))"
proof -
  let ?n = "n_state cs" and ?P = "n_pos_args self" and ?K = "n_kwonly_args self"
  let ?kwargs = "drop n_args argv"
  let ?r = "mp_setup_code_state cs self n_args n_kw argv"
  let ?L = "?P + ?K + (if takes_var_args self then 1 else 0)"
  let ?U = "unmatched_kwargs self ?kwargs [0..<n_kw]"
  let ?off = "offending self n_args argv"
  let ?ok = "(\<forall>i' < n_kw. \<not> ?off i')
             \<and> (\<forall>j < ?P - n_def_args self. supplied self n_args n_kw argv j)
             \<and> (\<forall>k < ?K. supplied self n_args n_kw argv (?P + k) \<or> kw_default self k \<noteq> None)"
  have slow: "n_kw \<noteq> 0 \<or> has_def_kw_args self" using i by simp
  have excess: "?r = Inl (ArityMismatch ?P n_args)" if "?P < n_args \<and> \<not> takes_var_args self"
    using that by (simp add: mp_setup_code_state_unfold check_pos_args_def fun_pos_args_mismatch_def)
  \<comment> \<open>without the flag\<close>
  have part1: "(\<exists>i0 \<le> i. ?off i0 \<and> (\<forall>i' < i0. \<not> ?off i') \<and> ?r = Inl (kw_error self n_args argv i0))
               \<and> ((\<forall>i' < i. \<not> ?off i') \<longrightarrow> ?r = Inl UnexpectedKeyword)"
    if nokw: "\<not> takes_kw_args self" and arity: "n_args \<le> ?P \<or> takes_var_args self"
  proof -
    have off: "?off i" using unknown nokw by (simp add: offending_def)
    from first_offender[OF off] obtain i0 where i0: "i0 \<le> i" "?off i0" "\<forall>i' < i0. \<not> ?off i'"
      by blast
    have "i0 < n_kw" using i0(1) i by simp
    from binder_first_offender[OF argv arity frame nonnull this i0(2,3)]
    have r: "?r = Inl (kw_error self n_args argv i0)" .
    have 1: "\<exists>i0 \<le> i. ?off i0 \<and> (\<forall>i' < i0. \<not> ?off i') \<and> ?r = Inl (kw_error self n_args argv i0)"
      using i0 r by blast
    have 2: "?r = Inl UnexpectedKeyword" if "\<forall>i' < i. \<not> ?off i'"
    proof -
      have "i0 = i" using that i0(1,2) by (cases "i0 = i") auto
      then show ?thesis using r kw_error_unknown[OF unknown] by simp
    qed
    from 1 2 show ?thesis by blast
  qed
  \<comment> \<open>with the flag\<close>
  have part2a: "?r \<noteq> Inl UnexpectedKeyword" if kw: "takes_kw_args self"
  proof (cases "n_args \<le> ?P \<or> takes_var_args self")
    case False
    then show ?thesis using excess by simp
  next
    case arity: True
    show ?thesis
    proof (rule keyword_path[OF arity slow frame, of argv])
      fix st vpk
      assume r: "?r = (case bind_kwargs self ?n vpk ?kwargs [0..<n_kw] st of
                         Inl e \<Rightarrow> Inl e | Inr st2 \<Rightarrow> after_kw_loop cs self st2)"
      show ?thesis
      proof (cases "bind_kwargs self ?n vpk ?kwargs [0..<n_kw] st")
        case (Inl e)
        from bind_kwargs_error[OF Inl] kw have "e \<noteq> UnexpectedKeyword" by auto
        then show ?thesis unfolding r Inl by simp
      next
        case (Inr st2)
        show ?thesis
        proof (cases "after_kw_loop cs self st2")
          case (Inl e)
          from after_kw_loop_error[OF Inl] have "e \<noteq> UnexpectedKeyword" by auto
          then show ?thesis unfolding r Inr using Inl by simp
        next
          case (Inr cs')
          then show ?thesis unfolding r \<open>bind_kwargs self ?n vpk ?kwargs [0..<n_kw] st = Inr st2\<close>
            by simp
        qed
      qed
    qed
  qed
  have part2b: "\<exists>kvs. state cs' ! (?n - 1 - ?L) = boxed (ip cs) ?L (Dict kvs)
                     \<and> map_of kvs = map_of (rev ?U)
                     \<and> (distinct (map fst ?U) \<longrightarrow> kvs = ?U)"
    if kw: "takes_kw_args self" and ok: "?r = Inr cs'" for cs'
  proof -
    have arity: "n_args \<le> ?P \<or> takes_var_args self"
      using excess ok by (cases "n_args \<le> ?P \<or> takes_var_args self") auto
    show ?thesis
    proof (rule keyword_path[OF arity slow frame, of argv])
      fix st vpk
      assume len: "length st = ?n"
        and dict: "takes_kw_args self \<Longrightarrow> vpk = ?n - Suc ?L \<and> vpk < ?n \<and> st ! vpk = Dict []"
        and r: "?r = (case bind_kwargs self ?n vpk ?kwargs [0..<n_kw] st of
                         Inl e \<Rightarrow> Inl e | Inr st2 \<Rightarrow> after_kw_loop cs self st2)"
      from ok r obtain st2 where b: "bind_kwargs self ?n vpk ?kwargs [0..<n_kw] st = Inr st2"
        and a: "after_kw_loop cs self st2 = Inr cs'"
        by (auto split: sum.splits)
      define L where "L = ?L"
      have vpk: "vpk = ?n - Suc L" "vpk < ?n" "st ! vpk = Dict []"
        using dict[OF kw] unfolding L_def by blast+
      have Ln: "L < ?n" using frame kw by (simp add: L_def)
      have LPK: "?P + ?K \<le> L" by (simp add: L_def)
      have disj: "\<forall>j < ?P + ?K. ?n - Suc j \<noteq> vpk"
        using vpk(1) Ln LPK by auto
      define kvs where "kvs = fold (\<lambda>(k, v). AList.update k v) ?U []"
      have "st2 ! vpk = Dict kvs"
        using bind_kwargs_dict[OF kw b vpk(3) _ disj] vpk(2) len by (simp add: kvs_def)
      then have st2: "st2 ! (?n - Suc L) \<noteq> MP_OBJ_NULL" "st2 ! (?n - Suc L) = Dict kvs"
        using vpk(1) by simp_all
      have len2: "length st2 = ?n" using bind_kwargs_length[OF b] len by simp
      have "state cs' ! (?n - Suc L) = boxed (ip cs) L (Dict kvs)"
        using after_kw_loop_keeps_filled[OF a st2(1) len2 Ln prelude] st2(2) by simp
      then have "state cs' ! (?n - 1 - ?L) = boxed (ip cs) ?L (Dict kvs)"
        unfolding L_def by simp
      moreover have "map_of kvs = map_of (rev ?U)"
        by (simp add: kvs_def fold_update_map_of)
      moreover have "distinct (map fst ?U) \<longrightarrow> kvs = ?U"
        using fold_update_distinct[of "[]" ?U] by (simp add: kvs_def)
      ultimately show ?thesis by blast
    qed
  qed
  have part2c: "(\<exists>cs'. ?r = Inr cs') \<longleftrightarrow> (n_args \<le> ?P \<or> takes_var_args self) \<and> ?ok"
  proof (cases "n_args \<le> ?P \<or> takes_var_args self")
    case False
    then have "?r = Inl (ArityMismatch ?P n_args)" using excess by simp
    then show ?thesis using False by simp
  next
    case True
    from binder_keyword_path_success_iff[OF argv True slow frame nonnull defaults]
    have "(\<exists>cs'. ?r = Inr cs') \<longleftrightarrow> ?ok" .
    then show ?thesis using True by simp
  qed
  have c1: "\<not> takes_kw_args self \<longrightarrow>
            (if ?P < n_args \<and> \<not> takes_var_args self
             then ?r = Inl (ArityMismatch ?P n_args)
             else (\<exists>i0 \<le> i. ?off i0 \<and> (\<forall>i' < i0. \<not> ?off i')
                      \<and> ?r = Inl (kw_error self n_args argv i0))
                  \<and> ((\<forall>i' < i. \<not> ?off i') \<longrightarrow> ?r = Inl UnexpectedKeyword))"
  proof (cases "?P < n_args \<and> \<not> takes_var_args self")
    case True
    then show ?thesis using excess by simp
  next
    case False
    then have arity: "n_args \<le> ?P \<or> takes_var_args self" by auto
    show ?thesis
    proof (rule impI)
      assume nokw: "\<not> takes_kw_args self"
      have eq: "(?P < n_args \<and> \<not> takes_var_args self) = False" using False by simp
      show "if ?P < n_args \<and> \<not> takes_var_args self
         then ?r = Inl (ArityMismatch ?P n_args)
         else (\<exists>i0 \<le> i. ?off i0 \<and> (\<forall>i' < i0. \<not> ?off i')
                  \<and> ?r = Inl (kw_error self n_args argv i0))
              \<and> ((\<forall>i' < i. \<not> ?off i') \<longrightarrow> ?r = Inl UnexpectedKeyword)"
        unfolding eq if_False by (rule part1[OF nokw arity])
    qed
  qed
  have c2: "takes_kw_args self \<longrightarrow>
            ?r \<noteq> Inl UnexpectedKeyword
            \<and> (\<forall>cs'. ?r = Inr cs' \<longrightarrow>
                  (\<exists>kvs. state cs' ! (?n - 1 - ?L) = boxed (ip cs) ?L (Dict kvs)
                     \<and> map_of kvs = map_of (rev ?U)
                     \<and> (distinct (map fst ?U) \<longrightarrow> kvs = ?U)))
            \<and> ((\<exists>cs'. ?r = Inr cs') \<longleftrightarrow> (n_args \<le> ?P \<or> takes_var_args self) \<and> ?ok)"
  proof (intro impI conjI allI)
    assume kw: "takes_kw_args self"
    show "?r \<noteq> Inl UnexpectedKeyword" by (rule part2a[OF kw])
    show "(\<exists>cs'. ?r = Inr cs') \<longleftrightarrow> (n_args \<le> ?P \<or> takes_var_args self) \<and> ?ok"
      by (rule part2c)
    fix cs' assume "?r = Inr cs'"
    then show "\<exists>kvs. state cs' ! (?n - 1 - ?L) = boxed (ip cs) ?L (Dict kvs)
                     \<and> map_of kvs = map_of (rev ?U)
                     \<and> (distinct (map fst ?U) \<longrightarrow> kvs = ?U)"
      by (rule part2b[OF kw])
  qed
  show ?thesis by (rule conjI[OF c1 c2])
qed

theorem unknown_keyword_witness:
  "\<exists>cs'. mp_setup_code_state
            \<lparr> code_info = [], ip = [0], sp = 0, exc_sp = 0, n_state = 2, state = [] \<rparr>
            (mp_obj_new_fun_bc mp_const_none MP_SCOPE_FLAG_VARKEYWORDS [1] 1 0
               MP_OBJ_NULL MP_OBJ_NULL [])
            0 2 [MP_OBJ_NEW_QSTR 1, MP_OBJ_NEW_SMALL_INT 1,
                 MP_OBJ_NEW_QSTR 9, MP_OBJ_NEW_SMALL_INT 2] = Inr cs'
         \<and> state cs' ! 0 = Dict [(MP_OBJ_NEW_QSTR 9, MP_OBJ_NEW_SMALL_INT 2)]"
proof -
  let ?cs = "\<lparr> code_info = [], ip = [0], sp = 0, exc_sp = 0, n_state = 2, state = [] \<rparr>"
  let ?f = "mp_obj_new_fun_bc mp_const_none MP_SCOPE_FLAG_VARKEYWORDS [1] 1 0
              MP_OBJ_NULL MP_OBJ_NULL []"
  let ?argv = "[MP_OBJ_NEW_QSTR 1, MP_OBJ_NEW_SMALL_INT 1,
                MP_OBJ_NEW_QSTR 9, MP_OBJ_NEW_SMALL_INT 2]"
  let ?U = "[(MP_OBJ_NEW_QSTR 9, MP_OBJ_NEW_SMALL_INT 2)]"
  have f: "n_pos_args ?f = 1" "n_kwonly_args ?f = 0" "n_def_args ?f = 0"
    "\<not> takes_var_args ?f" "takes_kw_args ?f" "args ?f = [1]"
    by (simp_all add: mp_obj_new_fun_bc_def MP_SCOPE_FLAG_VARARGS_def
                      MP_SCOPE_FLAG_VARKEYWORDS_def)
  have names: "kw_name 0 ?argv 0 = 1" "kw_name 0 ?argv 1 = 9"
    by (simp_all add: kw_name_def)
  have found: "find_arg_name ?f 1 = Some 0" and no9: "find_arg_name ?f 9 = None"
    using f by (simp_all add: find_arg_name_def)
  have U: "unmatched_kwargs ?f (drop 0 ?argv) [0..<2] = ?U"
    using found no9 by (simp add: unmatched_kwargs_def upt_conv_Cons numeral_2_eq_2)
  have box: "boxed [0] j v = v" for j v
    by (simp add: boxed_def closed_over_def)
  have h1: "length ?argv = 0 + 2 * 2" by simp
  have h2: "MP_OBJ_NULL \<notin> set ?argv" by simp
  have h3: "n_pos_args ?f + n_kwonly_args ?f + (if takes_var_args ?f then 1 else 0)
              + (if takes_kw_args ?f then 1 else 0) \<le> n_state ?cs"
    using f by simp
  have h4: "unat (hd (ip ?cs)) \<le> length (tl (ip ?cs))"
    and h5: "\<forall>l \<in> set (closed_over (ip ?cs)). l < n_state ?cs"
    by (simp_all add: closed_over_def)
  have h6: "(1::nat) < 2" by simp
  have h7: "find_arg_name ?f (kw_name 0 ?argv 1) = None"
    using names no9 by simp
  have h8: "n_def_args ?f \<le> n_pos_args ?f" using f by simp
  note main = unknown_keyword [OF h1 h2 h3 h4 h5 h6 h7 h8]
  note flagged = main[THEN conjunct2, THEN mp, OF f(5)]
  have arity: "0 \<le> n_pos_args ?f \<or> takes_var_args ?f" by simp
  have ok: "\<forall>i' < 2. \<not> offending ?f 0 ?argv i'"
    using names found no9 f by (simp add: offending_def less_2_cases_iff)
  have sup0: "supplied ?f 0 2 ?argv 0"
    unfolding supplied_def
    by (rule disjI2, rule bexI[of _ 0]) (use names found in simp_all)
  have req: "\<forall>j < n_pos_args ?f - n_def_args ?f. supplied ?f 0 2 ?argv j"
    using f sup0 by simp
  have kwonly: "\<forall>k < n_kwonly_args ?f. supplied ?f 0 2 ?argv (n_pos_args ?f + k)
                                       \<or> kw_default ?f k \<noteq> None"
    using f by simp
  from flagged[THEN conjunct2, THEN conjunct2, THEN iffD2, OF conjI[OF arity conjI[OF ok conjI[OF req kwonly]]]]
  obtain cs' where r: "mp_setup_code_state ?cs ?f 0 2 ?argv = Inr cs'"
    by blast
  from flagged[THEN conjunct2, THEN conjunct1, THEN spec, THEN mp, OF r] obtain kvs where
    "state cs' ! (n_state ?cs - 1 - (n_pos_args ?f + n_kwonly_args ?f
                                      + (if takes_var_args ?f then 1 else 0)))
       = boxed (ip ?cs) (n_pos_args ?f + n_kwonly_args ?f
                          + (if takes_var_args ?f then 1 else 0)) (Dict kvs)"
    and "distinct (map fst (unmatched_kwargs ?f (drop 0 ?argv) [0..<2]))
           \<longrightarrow> kvs = unmatched_kwargs ?f (drop 0 ?argv) [0..<2]"
    by blast
  then have "state cs' ! 0 = Dict ?U"
    unfolding U using f by (simp add: box)
  with r show ?thesis by blast
qed

text \<open>
  The claim C6 as stated fails twice. On a callable with the one parameter 1 and no
  flag, a call with two positional arguments and the unknown keyword 9 fails with the
  arity error, not the unexpected-keyword one. And a call that passes only the unknown
  keyword 9 fails with the unexpected-keyword error on that callable, but on the
  otherwise identical callable with the variadic-keyword flag it does not succeed: the
  parameter 1 is missing.
\<close>

theorem unknown_keyword_counterexample:
  "mp_setup_code_state
     \<lparr> code_info = [], ip = [0], sp = 0, exc_sp = 0, n_state = 1, state = [] \<rparr>
     (mp_obj_new_fun_bc mp_const_none 0 [1] 1 0 MP_OBJ_NULL MP_OBJ_NULL [])
     2 1 [MP_OBJ_NEW_SMALL_INT 1, MP_OBJ_NEW_SMALL_INT 2, MP_OBJ_NEW_QSTR 9, MP_OBJ_NEW_SMALL_INT 3]
   = Inl (ArityMismatch 1 2)
   \<and> mp_setup_code_state
       \<lparr> code_info = [], ip = [0], sp = 0, exc_sp = 0, n_state = 1, state = [] \<rparr>
       (mp_obj_new_fun_bc mp_const_none 0 [1] 1 0 MP_OBJ_NULL MP_OBJ_NULL [])
       0 1 [MP_OBJ_NEW_QSTR 9, MP_OBJ_NEW_SMALL_INT 3]
     = Inl UnexpectedKeyword
   \<and> mp_setup_code_state
       \<lparr> code_info = [], ip = [0], sp = 0, exc_sp = 0, n_state = 2, state = [] \<rparr>
       (mp_obj_new_fun_bc mp_const_none MP_SCOPE_FLAG_VARKEYWORDS [1] 1 0 MP_OBJ_NULL MP_OBJ_NULL [])
       0 1 [MP_OBJ_NEW_QSTR 9, MP_OBJ_NEW_SMALL_INT 3]
     = Inl (MissingRequiredPositional 0)"
  by code_simp

section \<open>The call frame of \<^verbatim>\<open>fun_bc_call\<close>\<close>

text \<open>
  The memory events of a call, by the way the call ends: when the binder fails nothing
  is released; when the virtual machine returns, normally or with an exception, a heap
  frame is released once and a stack frame never.
\<close>

lemma fun_bc_call_binder_fails:
  assumes "mp_setup_code_state
             (uninit\<lparr> n_state := n, ip := drop 4 (drop code_info_size (bytecode self)) \<rparr>)
             self n_args n_kw argv = Inl e"
    and "code_info_size = unat (bytecode self ! 0) OR push_bit 8 (unat (bytecode self ! 1))
                            OR push_bit 16 (unat (bytecode self ! 2))
                            OR push_bit 24 (unat (bytecode self ! 3))"
    and "n = unat (drop code_info_size (bytecode self) ! 0)
               OR push_bit 8 (unat (drop code_info_size (bytecode self) ! 1))"
  shows "\<exists>sz. fun_bc_call t mp_execute_bytecode uninit self n_args n_kw argv
                 = (Inl e, [if sz > VM_MAX_STATE_ON_STACK t
                            then M_NEW_OBJ_VAR sz
                            else ALLOCA (sizeof_mp_code_state t + sz)])"
  using assms by (auto simp: fun_bc_call_def Let_def)

lemma fun_bc_call_vm_returns:
  assumes "mp_setup_code_state
             (uninit\<lparr> n_state := n, ip := drop 4 (drop code_info_size (bytecode self)) \<rparr>)
             self n_args n_kw argv = Inr cs"
    and "code_info_size = unat (bytecode self ! 0) OR push_bit 8 (unat (bytecode self ! 1))
                            OR push_bit 16 (unat (bytecode self ! 2))
                            OR push_bit 24 (unat (bytecode self ! 3))"
    and "n = unat (drop code_info_size (bytecode self) ! 0)
               OR push_bit 8 (unat (drop code_info_size (bytecode self) ! 1))"
    and "fst (mp_execute_bytecode (globals self) cs) \<noteq> MP_VM_RETURN_YIELD"
  shows "(\<exists>sz. snd (fun_bc_call t mp_execute_bytecode uninit self n_args n_kw argv)
                 = [M_NEW_OBJ_VAR sz, M_DEL_VAR sz] \<and> sz > VM_MAX_STATE_ON_STACK t)
       \<or> (\<exists>sz. snd (fun_bc_call t mp_execute_bytecode uninit self n_args n_kw argv)
                 = [ALLOCA sz])"
  using assms
  by (cases "mp_execute_bytecode (globals self) cs";
      cases "fst (mp_execute_bytecode (globals self) cs)")
     (simp_all add: fun_bc_call_def Let_def)

text \<open>
  C9. The claim asks that a heap-allocated frame be released exactly once on every exit
  path, argument-binding failure included. The code releases it after the virtual
  machine returned, normally or with an exception (\<open>fun_bc_call_vm_returns\<close>), and it
  never releases a stack frame; but a failure of the binder leaves \<^verbatim>\<open>fun_bc_call\<close>
  through \<^verbatim>\<open>nlr_raise\<close> before the release at the end of the function. The input:
  a function without parameters whose bytecode declares 11 state slots (44 bytes on a
  target with 4-byte words, more than the 40 bytes allowed on the stack), called with one
  positional argument. The frame is taken from the heap, the binder fails with the arity
  error, and no \<^verbatim>\<open>m_del_var\<close> follows.
\<close>

theorem heap_frame_leaks_on_binding_failure:
  "fun_bc_call
     \<lparr> sizeof_mp_obj_t = 4, sizeof_mp_exc_stack_t = 8, sizeof_mp_uint_t = 4,
       sizeof_mp_code_state = 24 \<rparr>
     mp_execute_bytecode uninit
     (mp_obj_new_fun_bc mp_const_none 0 [] 0 0 MP_OBJ_NULL MP_OBJ_NULL
        [4, 0, 0, 0, 11, 0, 0, 0, 0])
     1 0 [MP_OBJ_NEW_SMALL_INT 1]
   = (Inl (ArityMismatch 0 1), [M_NEW_OBJ_VAR 44])"
  by (simp add: fun_bc_call_def mp_obj_new_fun_bc_def VM_MAX_STATE_ON_STACK_def
                mp_setup_code_state_def check_pos_args_def fun_pos_args_mismatch_def
                MP_SCOPE_FLAG_VARARGS_def MP_SCOPE_FLAG_VARKEYWORDS_def Let_def)

section \<open>The type signature of a viper function\<close>

text \<open>
  For up to three arguments, \<^verbatim>\<open>fun_viper_call\<close> converts argument \<open>k\<close> with the
  signature shifted right by \<open>2 * k + 2\<close> bits and the result with the signature itself.
\<close>

lemma upt_small: "[0..<1] = [0::nat]" "[0..<2] = [0, 1::nat]" "[0..<3] = [0, 1, 2::nat]"
  by (simp_all add: numeral_2_eq_2 numeral_3_eq_3)

lemma fun_viper_call_slots:
  assumes "n_args = viper_n_args self" and "n_args \<le> 3"
  shows "fun_viper_call to_native to_obj self n_args 0 argv
           = Inr (to_obj
                    (viper_fun self
                       (map (\<lambda>k. to_native (argv ! k) (drop_bit (2 * k + 2) (type_sig self)))
                            [0..<n_args]))
                    (type_sig self))"
proof -
  have e: "Suc (Suc 0) = 2" "Suc (Suc 2) = 4" "Suc (Suc 4) = 6" by simp_all
  from assms(2) consider "n_args = 0" | "n_args = 1" | "n_args = 2" | "n_args = 3"
    by arith
  then show ?thesis
  proof cases
    case 1
    then show ?thesis using assms(1)
      by (simp add: fun_viper_call_def mp_arg_check_num_def)
  next
    case 2
    then show ?thesis using assms(1)
      by (simp add: fun_viper_call_def mp_arg_check_num_def e)
  next
    case 3
    then show ?thesis using assms(1)
      by (simp add: fun_viper_call_def mp_arg_check_num_def upt_small e del: upt_Suc)
  next
    case 4
    then show ?thesis using assms(1)
      by (simp add: fun_viper_call_def mp_arg_check_num_def upt_small e del: upt_Suc)
  qed
qed

text \<open>
  C8. The conversions by 2-bit codes are as the claim says, but the layout is not: the
  return type is in the least-significant slot of the signature (bits 1..0), argument
  \<open>k\<close> in slot \<open>k + 1\<close> (bits \<open>2 * k + 3 .. 2 * k + 2\<close>). The comment on
  \<^verbatim>\<open>type_sig\<close> in \<^verbatim>\<open>py/emitglue.h\<close> says "ret is MSB, then arg0, arg1, etc", which
  the claim repeats. The input: one argument, signature 6 (binary 0110). The call
  converts the argument with the type word 1, the code of bool, and the result with the
  type word 6, whose code is that of int, while the most-significant slot of the word
  holds the code of object.
\<close>

theorem viper_return_type_in_low_slot:
  "fun_viper_call to_native to_obj \<lparr> viper_n_args = 1, viper_fun = f, type_sig = 6 \<rparr> 1 0 [a]
     = Inr (to_obj (f [to_native a 1]) 6)
   \<and> native_type_code 1 = MP_NATIVE_TYPE_BOOL
   \<and> native_type_code 6 = MP_NATIVE_TYPE_INT
   \<and> native_type_code (drop_bit 30 6) = MP_NATIVE_TYPE_OBJ"
  by (simp add: fun_viper_call_def mp_arg_check_num_def native_type_code_def
                MP_NATIVE_TYPE_BOOL_def MP_NATIVE_TYPE_INT_def MP_NATIVE_TYPE_OBJ_def
                drop_bit_eq_div)

end
